theory Spec2Isabelle
  imports Complex_Main "HOL-Library.AList"
begin

section \<open>The timeline of src/App.tsx: data model\<close>

text \<open>
  The component keeps a date-keyed list of release groups, a cache of measured item
  heights keyed by list position, and a prefix-sum table of item offsets derived from
  both. Pixel quantities are JavaScript numbers; they are modelled as reals, list
  positions and measurement epochs as naturals, indices that can be negative as integers.
\<close>

record Game =
  title :: string
  genre :: "string list"
  style :: string
  studio :: string
  platforms :: "string list"

record ReleaseGroup =
  date :: string
  displayDate :: string
  games :: "Game list"

definition ESTIMATED_ITEM_HEIGHT :: real where
  "ESTIMATED_ITEM_HEIGHT = 260"

definition ITEM_GAP :: real where
  "ITEM_GAP = 32"

definition OVERSCAN_PX :: real where
  "OVERSCAN_PX = 1200"

definition SCROLL_THRESHOLD :: real where
  "SCROLL_THRESHOLD = 120"

definition SCROLL_SNAP_ATTEMPTS :: int where
  "SCROLL_SNAP_ATTEMPTS = 3"

subsection \<open>The height cache\<close>

text \<open>
  \<^verbatim>\<open>heightsRef\<close> is a \<^verbatim>\<open>Map<number, number>\<close> from list position to measured
  height. \<^verbatim>\<open>getItemHeight\<close> falls back to the estimate for a position never measured.
\<close>

type_synonym HeightStore = "nat \<rightharpoonup> real"

definition getItemHeight :: "HeightStore \<Rightarrow> nat \<Rightarrow> real" where
  "getItemHeight hs i = (case hs i of Some h \<Rightarrow> h | None \<Rightarrow> ESTIMATED_ITEM_HEIGHT)"

text \<open>
  \<^verbatim>\<open>measureItem\<close> is the only writer of new measurements: it stores a height only when
  it is positive and differs from the stored one. The result says whether the map changed
  (the caller then schedules a bump of the measurement epoch).
\<close>

definition measureItem :: "nat \<Rightarrow> real \<Rightarrow> HeightStore \<Rightarrow> HeightStore \<times> bool" where
  "measureItem i height hs =
     (if 0 < height \<and> hs i \<noteq> Some height then (hs(i \<mapsto> height), True) else (hs, False))"

text \<open>
  The loop of \<^verbatim>\<open>loadAdjacentYear\<close> that rebuilds the cache after a prepend: every entry
  \<open>(index, height)\<close> is stored again under \<open>index + n\<close>.
\<close>

definition remapHeights :: "nat \<Rightarrow> HeightStore \<Rightarrow> HeightStore" where
  "remapHeights n hs = (\<lambda>j. if n \<le> j then hs (j - n) else None)"

definition positiveHeights :: "HeightStore \<Rightarrow> bool" where
  "positiveHeights hs = (\<forall>i h. hs i = Some h \<longrightarrow> 0 < h)"

subsection \<open>The offset table\<close>

text \<open>
  \<^verbatim>\<open>offsets\<close> allocates \<open>count + 1\<close> slots, writes \<open>0\<close> into slot \<open>0\<close> and fills slot
  \<open>i + 1\<close> from slot \<open>i\<close> in a counting loop. The gap added after item \<open>i\<close> is
  \<^verbatim>\<open>i === count - 1 ? 0 : ITEM_GAP\<close>. The slots not yet written are holes in the source;
  here they hold \<open>0\<close> until the loop reaches them.
\<close>

definition gapAfter :: "nat \<Rightarrow> nat \<Rightarrow> real" where
  "gapAfter count i = (if int i = int count - 1 then 0 else ITEM_GAP)"

function offsetsLoop :: "nat \<Rightarrow> HeightStore \<Rightarrow> nat \<Rightarrow> real list \<Rightarrow> real list" where
  "offsetsLoop count hs i result =
     (if i < count
      then offsetsLoop count hs (i + 1)
             (result[i + 1 := result ! i + getItemHeight hs i + gapAfter count i])
      else result)"
  by pat_completeness auto
termination
  by (relation "measure (\<lambda>(count, hs, i, result). count - i)") auto

declare offsetsLoop.simps [simp del]

definition offsets :: "nat \<Rightarrow> HeightStore \<Rightarrow> real list" where
  "offsets count hs = offsetsLoop count hs 0 ((replicate (count + 1) 0)[0 := 0])"

definition totalHeight :: "nat \<Rightarrow> HeightStore \<Rightarrow> real" where
  "totalHeight count hs = (let offs = offsets count hs in offs ! (length offs - 1))"


subsection \<open>Mapping a pixel offset to an item\<close>

text \<open>
  The binary search of \<^verbatim>\<open>findIndexForOffset\<close>: \<open>low\<close> and \<open>high\<close> start at \<open>0\<close>
  and \<open>offsets.length - 1\<close>, and the result is \<^verbatim>\<open>Math.max(0, low - 1)\<close>.
\<close>

function findLoop :: "real list \<Rightarrow> real \<Rightarrow> nat \<Rightarrow> nat \<Rightarrow> nat" where
  "findLoop offs x low high =
     (if low < high
      then (let mid = (low + high) div 2
            in if offs ! mid \<le> x then findLoop offs x (mid + 1) high
               else findLoop offs x low mid)
      else low)"
  by pat_completeness auto
termination
  by (relation "measure (\<lambda>(offs, x, low, high). high - low)") auto

declare findLoop.simps [simp del]

definition findIndexForOffset :: "real list \<Rightarrow> real \<Rightarrow> int" where
  "findIndexForOffset offs x = max 0 (int (findLoop offs x 0 (length offs - 1)) - 1)"

record Range =
  start :: int
  end' :: int

definition visibleRange :: "nat \<Rightarrow> HeightStore \<Rightarrow> real \<Rightarrow> real \<Rightarrow> Range" where
  "visibleRange count hs st vh =
     (if count = 0 then \<lparr>start = 0, end' = - 1\<rparr>
      else (let startOffset = max 0 (st - OVERSCAN_PX);
                endOffset = st + vh + OVERSCAN_PX
            in \<lparr>start = findIndexForOffset (offsets count hs) startOffset,
                end' = min (int count - 1) (findIndexForOffset (offsets count hs) endOffset)\<rparr>))"

subsection \<open>Scroll targets and the prepend estimate\<close>

definition estimateAddedHeight :: "int \<Rightarrow> real" where
  "estimateAddedHeight count =
     (if count \<le> 0 then 0 else of_int count * (ESTIMATED_ITEM_HEIGHT + ITEM_GAP))"

text \<open>
  \<^verbatim>\<open>getScrollTarget\<close> returns \<^verbatim>\<open>null\<close> when the scroll element is not mounted; the
  element is represented by its \<^verbatim>\<open>clientHeight\<close>, \<open>None\<close> when it is absent.
  \<^verbatim>\<open>offsets[index] ?? 0\<close> reads \<open>0\<close> past the end of the table.
\<close>

definition offsetAt :: "real list \<Rightarrow> nat \<Rightarrow> real" where
  "offsetAt offs i = (if i < length offs then offs ! i else 0)"

definition getScrollTarget :: "nat \<Rightarrow> HeightStore \<Rightarrow> real option \<Rightarrow> nat \<Rightarrow> real option" where
  "getScrollTarget count hs scrollEl i =
     (case scrollEl of
        None \<Rightarrow> None
      | Some clientHeight \<Rightarrow>
          (let targetTop = offsetAt (offsets count hs) i;
               targetHeight = getItemHeight hs i;
               offset = targetTop - clientHeight / 2 + targetHeight / 2;
               maxScrollTop = max 0 (totalHeight count hs - clientHeight);
               clamped = min (max offset 0) maxScrollTop
           in Some clamped))"

subsection \<open>Merging a fetched page\<close>

text \<open>
  \<^verbatim>\<open>mergeTimeline\<close> groups by date in a \<^verbatim>\<open>Map\<close>, which keeps keys in the order of
  their first insertion: an association list updated in place. The existing groups are
  copied in; an incoming entry is looked up by its date, gets a fresh empty group when the
  date is new, and has its games pushed onto the group found. The values are then sorted
  by \<^verbatim>\<open>new Date(date).getTime()\<close>; the host's date parser is the parameter \<open>getTime\<close>
  and the sort is stable.
\<close>

definition copyGroup :: "ReleaseGroup \<Rightarrow> ReleaseGroup" where
  "copyGroup entry = \<lparr>date = date entry, displayDate = displayDate entry, games = games entry\<rparr>"

definition freshGroup :: "ReleaseGroup \<Rightarrow> ReleaseGroup" where
  "freshGroup entry =
     \<lparr>date = date entry,
      displayDate = (if displayDate entry = [] then date entry else displayDate entry),
      games = []\<rparr>"

definition addEntry :: "ReleaseGroup \<Rightarrow> (string \<times> ReleaseGroup) list \<Rightarrow> (string \<times> ReleaseGroup) list" where
  "addEntry entry grouped =
     (let current = (case map_of grouped (date entry) of
                       Some c \<Rightarrow> c
                     | None \<Rightarrow> freshGroup entry)
      in AList.update (date entry) (current\<lparr>games := games current @ games entry\<rparr>) grouped)"

definition groupPrev :: "ReleaseGroup list \<Rightarrow> (string \<times> ReleaseGroup) list \<Rightarrow> (string \<times> ReleaseGroup) list" where
  "groupPrev prev grouped = fold (\<lambda>entry. AList.update (date entry) (copyGroup entry)) prev grouped"

definition groupEntries :: "ReleaseGroup list \<Rightarrow> (string \<times> ReleaseGroup) list \<Rightarrow> (string \<times> ReleaseGroup) list" where
  "groupEntries entries grouped = fold addEntry entries grouped"

definition mergeTimeline :: "(string \<Rightarrow> int) \<Rightarrow> ReleaseGroup list \<Rightarrow> ReleaseGroup list \<Rightarrow> ReleaseGroup list" where
  "mergeTimeline getTime prev entries =
     sort_key (\<lambda>g. getTime (date g)) (map snd (groupEntries entries (groupPrev prev [])))"

text \<open>
  The variant of the component built on a virtual-list widget (\<^verbatim>\<open>loadNext\<close> and
  \<^verbatim>\<open>loadPrev\<close>) has no \<^verbatim>\<open>mergeTimeline\<close>: it filters the page against the dates
  already present and concatenates.
\<close>

definition newItems :: "ReleaseGroup list \<Rightarrow> ReleaseGroup list \<Rightarrow> ReleaseGroup list" where
  "newItems current entries = filter (\<lambda>group. date group \<notin> set (map date current)) entries"

definition loadNextData :: "ReleaseGroup list \<Rightarrow> ReleaseGroup list \<Rightarrow> ReleaseGroup list" where
  "loadNextData current entries =
     (if newItems current entries \<noteq> [] then current @ newItems current entries else current)"

definition loadPrevData :: "ReleaseGroup list \<Rightarrow> ReleaseGroup list \<Rightarrow> ReleaseGroup list" where
  "loadPrevData current entries =
     (if newItems current entries \<noteq> [] then newItems current entries @ current else current)"

text \<open>
  The host's \<^verbatim>\<open>Date\<close> is not part of the repository. For concrete scenarios the
  date-only form \<^verbatim>\<open>YYYY-MM-DD\<close> is read as the host does: milliseconds from the epoch
  to that day's midnight, by the usual day count of the proleptic Gregorian calendar.
\<close>

definition digitValue :: "char \<Rightarrow> int" where
  "digitValue c = int (of_char c) - 48"

definition numberOf :: "string \<Rightarrow> int" where
  "numberOf s = foldl (\<lambda>n c. 10 * n + digitValue c) 0 s"

definition daysFromCivil :: "int \<Rightarrow> int \<Rightarrow> int \<Rightarrow> int" where
  "daysFromCivil y m d =
     (let y' = (if m \<le> 2 then y - 1 else y);
          era = y' div 400;
          yoe = y' - era * 400;
          doy = (153 * (if 2 < m then m - 3 else m + 9) + 2) div 5 + d - 1;
          doe = yoe * 365 + yoe div 4 - yoe div 100 + doy
      in era * 146097 + doe - 719468)"

definition isoDateTime :: "string \<Rightarrow> int" where
  "isoDateTime s =
     daysFromCivil (numberOf (take 4 s)) (numberOf (take 2 (drop 5 s))) (numberOf (take 2 (drop 8 s)))
       * 86400000"

section \<open>Pagination: loading the adjacent year\<close>

text \<open>
  The state the pagination code reads and writes, under the names of the source. The
  values held by \<^verbatim>\<open>useState\<close> form one record, because the component has them twice:
  the current values, which every \<^verbatim>\<open>setState\<close> call changes, and the values of the last
  committed render, which are what the effects and callbacks of that render read from
  their closure (\<open>closure\<close>, read through \<open>rendered\<close>). \<open>offsetsMemo\<close> is the offset table memoised by that
  render. The refs (\<^verbatim>\<open>heightsRef\<close>, \<^verbatim>\<open>pendingScrollShiftRef\<close>,
  \<^verbatim>\<open>scrollDirectionRef\<close>, \<^verbatim>\<open>lastScrollTopRef\<close>) are read and written in place.
  \<open>inFlight\<close> is not a variable of the source: it lists the calls of \<^verbatim>\<open>fetchYear\<close> that
  \<^verbatim>\<open>loadAdjacentYear\<close> has started and that have not settled yet, so that concurrent
  fetches can be counted. The scroll element's \<^verbatim>\<open>scrollTop\<close> and \<^verbatim>\<open>clientHeight\<close> are
  identified with the current values of \<open>scrollTop\<close> and \<open>viewportHeight\<close>.
\<close>

datatype direction = Prev | Next

datatype scrollDir = Up | Down

record HookValues =
  timeline :: "ReleaseGroup list"
  error :: "string option"
  availableYears :: "int list"
  loadedYears :: "int list"
  loadingPrev :: bool
  loadingNext :: bool
  canAutoLoad :: bool
  isTransitioning :: bool
  measureVersion :: nat
  scrollTop :: real
  viewportHeight :: real

datatype Closure = Closure (closed: HookValues)

record AppState = HookValues +
  heights :: HeightStore
  pendingScrollShift :: real
  scrollDirection :: "scrollDir option"
  lastScrollTop :: real
  closure :: Closure
  offsetsMemo :: "real list"
  inFlight :: "(direction \<times> int) list"

abbreviation rendered :: "AppState \<Rightarrow> HookValues" where
  "rendered s \<equiv> closed (closure s)"

definition minLoadedYear :: "'a HookValues_scheme \<Rightarrow> int option" where
  "minLoadedYear s =
     (case loadedYears s of [] \<Rightarrow> None | y # ys \<Rightarrow> Some (fold min ys y))"

definition maxLoadedYear :: "'a HookValues_scheme \<Rightarrow> int option" where
  "maxLoadedYear s =
     (case loadedYears s of [] \<Rightarrow> None | y # ys \<Rightarrow> Some (fold max ys y))"

definition prevYear :: "'a HookValues_scheme \<Rightarrow> int option" where
  "prevYear s =
     (case minLoadedYear s of
        None \<Rightarrow> None
      | Some m \<Rightarrow> find (\<lambda>y. y < m) (rev (availableYears s)))"

definition nextYear :: "'a HookValues_scheme \<Rightarrow> int option" where
  "nextYear s =
     (case maxLoadedYear s of
        None \<Rightarrow> None
      | Some m \<Rightarrow> find (\<lambda>y. m < y) (availableYears s))"

text \<open>
  \<^verbatim>\<open>totalHeight\<close> as the render has it: the last entry of the memoised table, \<open>0\<close> when
  there is none.
\<close>

definition renderedTotalHeight :: "AppState \<Rightarrow> real" where
  "renderedTotalHeight s =
     (let offs = offsetsMemo s in if offs = [] then 0 else offs ! (length offs - 1))"

text \<open>
  \<^verbatim>\<open>loadAdjacentYear\<close> in three parts: what runs before the \<^verbatim>\<open>await\<close>, what runs when
  \<^verbatim>\<open>fetchYear\<close> resolves with the page, and what runs when it throws. The
  \<^verbatim>\<open>finally\<close> block is part of both endings. The callback closes over the
  \<^verbatim>\<open>loadedYears\<close> of its render; \<^verbatim>\<open>setTimeline\<close> and \<^verbatim>\<open>setLoadedYears\<close> are given
  functions of the current value.
\<close>

definition setLoading :: "direction \<Rightarrow> bool \<Rightarrow> AppState \<Rightarrow> AppState" where
  "setLoading dir b s = (case dir of Prev \<Rightarrow> s\<lparr>loadingPrev := b\<rparr> | Next \<Rightarrow> s\<lparr>loadingNext := b\<rparr>)"

definition loadAdjacentYear_begin :: "int \<Rightarrow> direction \<Rightarrow> AppState \<Rightarrow> AppState" where
  "loadAdjacentYear_begin year dir s =
     (if year \<in> set (loadedYears (rendered s)) then s
      else (let s1 = (case dir of
                        Prev \<Rightarrow> s\<lparr>loadingPrev := True, isTransitioning := True\<rparr>
                      | Next \<Rightarrow> s\<lparr>loadingNext := True\<rparr>)
            in s1\<lparr>inFlight := inFlight s1 @ [(dir, year)]\<rparr>))"

definition loadAdjacentYear_resolved ::
  "(string \<Rightarrow> int) \<Rightarrow> int \<Rightarrow> direction \<Rightarrow> ReleaseGroup list \<Rightarrow> AppState \<Rightarrow> AppState" where
  "loadAdjacentYear_resolved getTime year dir entries s =
     (let s1 = (if dir = Prev \<and> entries \<noteq> []
                then s\<lparr>heights := remapHeights (length entries) (heights s),
                       pendingScrollShift :=
                         pendingScrollShift s + estimateAddedHeight (int (length entries))\<rparr>
                else s);
          s2 = s1\<lparr>measureVersion := measureVersion s1 + 1,
                  timeline := mergeTimeline getTime (timeline s1) entries,
                  loadedYears := (if year \<in> set (loadedYears s1) then loadedYears s1
                                  else loadedYears s1 @ [year]),
                  error := None\<rparr>
      in setLoading dir False s2)"

datatype thrown = ErrorObject string | OtherValue

definition failureMessage :: "thrown \<Rightarrow> string" where
  "failureMessage err = (case err of ErrorObject m \<Rightarrow> m | OtherValue \<Rightarrow> ''Failed to load timeline.'')"

definition loadAdjacentYear_rejected :: "int \<Rightarrow> direction \<Rightarrow> thrown \<Rightarrow> AppState \<Rightarrow> AppState" where
  "loadAdjacentYear_rejected year dir err s =
     setLoading dir False (s\<lparr>error := Some (failureMessage err), isTransitioning := False\<rparr>)"

text \<open>
  The two effects that start a load. Their conditions are on the values of the render the
  effect belongs to and on \<^verbatim>\<open>scrollDirectionRef\<close>. \<^verbatim>\<open>!prevYear\<close> is true for
  \<^verbatim>\<open>null\<close> and for the number \<open>0\<close>.
\<close>

definition falsyYear :: "int option \<Rightarrow> bool" where
  "falsyYear y = (y = None \<or> y = Some 0)"

definition prevEdgeReached :: "AppState \<Rightarrow> bool" where
  "prevEdgeReached s =
     (\<not> (timeline (rendered s) = [] \<or> falsyYear (prevYear (rendered s)) \<or>
          loadingPrev (rendered s) \<or> \<not> canAutoLoad (rendered s))
      \<and> scrollTop (rendered s) \<le> SCROLL_THRESHOLD \<and> scrollDirection s = Some Up)"

definition nextEdgeReached :: "AppState \<Rightarrow> bool" where
  "nextEdgeReached s =
     (\<not> (timeline (rendered s) = [] \<or> falsyYear (nextYear (rendered s)) \<or>
          loadingNext (rendered s) \<or> \<not> canAutoLoad (rendered s))
      \<and> renderedTotalHeight s - SCROLL_THRESHOLD
           \<le> scrollTop (rendered s) + viewportHeight (rendered s)
      \<and> scrollDirection s = Some Down)"

definition prevEdgeEffect :: "AppState \<Rightarrow> AppState" where
  "prevEdgeEffect s =
     (if prevEdgeReached s
      then (case prevYear (rendered s) of
              Some y \<Rightarrow> loadAdjacentYear_begin y Prev s
            | None \<Rightarrow> s)
      else s)"

definition nextEdgeEffect :: "AppState \<Rightarrow> AppState" where
  "nextEdgeEffect s =
     (if nextEdgeReached s
      then (case nextYear (rendered s) of
              Some y \<Rightarrow> loadAdjacentYear_begin y Next s
            | None \<Rightarrow> s)
      else s)"

text \<open>
  The layout effect that applies the pending scroll shift once the timeline has grown. It
  reads the scroll element and the \<^verbatim>\<open>totalHeight\<close> of its render, writes the element's
  \<^verbatim>\<open>scrollTop\<close> and calls \<^verbatim>\<open>setScrollTop\<close> with the same value.
\<close>

definition applyPendingShift :: "AppState \<Rightarrow> AppState" where
  "applyPendingShift s =
     (if pendingScrollShift s = 0 then s
      else (let shift = pendingScrollShift s;
                nextScrollTop = scrollTop s + shift;
                maxScrollTop = max 0 (renderedTotalHeight s - viewportHeight s);
                clamped = min (max nextScrollTop 0) maxScrollTop
            in s\<lparr>pendingScrollShift := 0, scrollTop := clamped, isTransitioning := False\<rparr>))"

text \<open>
  The event handlers of the scroll element. \<^verbatim>\<open>markUserInteraction\<close> enables automatic
  loading; \<^verbatim>\<open>handleWheel\<close> and \<^verbatim>\<open>handleScroll\<close> record the scroll direction.
\<close>

definition markUserInteraction :: "AppState \<Rightarrow> AppState" where
  "markUserInteraction s = s\<lparr>canAutoLoad := True\<rparr>"

definition handleWheel :: "real \<Rightarrow> AppState \<Rightarrow> AppState" where
  "handleWheel deltaY s =
     (let s1 = markUserInteraction s
      in if 0 < deltaY then s1\<lparr>scrollDirection := Some Down\<rparr>
         else if deltaY < 0 then s1\<lparr>scrollDirection := Some Up\<rparr>
         else s1)"

definition handleScroll :: "real \<Rightarrow> AppState \<Rightarrow> AppState" where
  "handleScroll nextScrollTop s =
     (let s1 = (if nextScrollTop \<noteq> lastScrollTop s
                then s\<lparr>scrollDirection := Some (if lastScrollTop s < nextScrollTop then Down else Up),
                       lastScrollTop := nextScrollTop\<rparr>
                else s)
      in s1\<lparr>scrollTop := nextScrollTop\<rparr>)"

text \<open>
  A measurement reported by a rendered item. The source defers the bump of the measurement
  epoch to the next animation frame, one bump for all measurements of a frame; here it is
  taken with the measurement.
\<close>

definition measured :: "nat \<Rightarrow> real \<Rightarrow> AppState \<Rightarrow> AppState" where
  "measured i height s =
     (case measureItem i height (heights s) of
        (hs, changed) \<Rightarrow>
          s\<lparr>heights := hs,
            measureVersion := (if changed then measureVersion s + 1 else measureVersion s)\<rparr>)"

text \<open>
  Renders. A render commits the current values: they become the values the effects read,
  and the offset table is computed from the item count and the height cache of that
  moment. React renders at once, on their own, the updates made at synchronous priority
  (in a layout effect or inside \<^verbatim>\<open>flushSync\<close>) and leaves the updates of lower
  priority, such as those an effect or a settled fetch has made, to the next render. The
  update made at that priority here is the \<^verbatim>\<open>setScrollTop\<close> of the layout effect
  above, so a synchronous render takes the current \<open>scrollTop\<close> and keeps every other
  value of the render before.
\<close>

definition hookValues :: "AppState \<Rightarrow> HookValues" where
  "hookValues s =
     \<lparr>timeline = timeline s, error = error s, availableYears = availableYears s,
      loadedYears = loadedYears s, loadingPrev = loadingPrev s, loadingNext = loadingNext s,
      canAutoLoad = canAutoLoad s, isTransitioning = isTransitioning s,
      measureVersion = measureVersion s, scrollTop = scrollTop s,
      viewportHeight = viewportHeight s\<rparr>"

definition render :: "AppState \<Rightarrow> AppState" where
  "render s =
     s\<lparr>closure := Closure (hookValues s),
       offsetsMemo := offsets (length (timeline s)) (heights s)\<rparr>"

definition renderSync :: "AppState \<Rightarrow> AppState" where
  "renderSync s = s\<lparr>closure := Closure ((rendered s)\<lparr>scrollTop := scrollTop s\<rparr>)\<rparr>"

text \<open>
  What can happen to the component, one event at a time: JavaScript runs each handler,
  each effect and each continuation after an \<^verbatim>\<open>await\<close> to its end before the next one
  starts. The handlers and the continuations change the current values; the effects read
  the values of the last render. A settling fetch is the oldest one in flight for its
  direction; a settlement with no fetch in flight changes nothing.
\<close>

datatype event =
    Wheel real
  | Touch
  | Scroll real
  | Resize real
  | Measured nat real
  | Commit
  | CommitSync
  | RunPrevEdgeEffect
  | RunNextEdgeEffect
  | RunShiftEffect
  | FetchResolved direction "ReleaseGroup list"
  | FetchRejected direction thrown

definition fetchesOf :: "direction \<Rightarrow> AppState \<Rightarrow> (direction \<times> int) list" where
  "fetchesOf dir s = filter (\<lambda>f. fst f = dir) (inFlight s)"

definition settle :: "direction \<Rightarrow> (int \<Rightarrow> AppState \<Rightarrow> AppState) \<Rightarrow> AppState \<Rightarrow> AppState" where
  "settle dir k s =
     (case fetchesOf dir s of
        [] \<Rightarrow> s
      | f # fs \<Rightarrow> k (snd f) (s\<lparr>inFlight := remove1 f (inFlight s)\<rparr>))"

fun step :: "(string \<Rightarrow> int) \<Rightarrow> event \<Rightarrow> AppState \<Rightarrow> AppState" where
  "step getTime (Wheel deltaY) s = handleWheel deltaY s"
| "step getTime Touch s = markUserInteraction s"
| "step getTime (Scroll x) s = handleScroll x s"
| "step getTime (Resize h) s = s\<lparr>viewportHeight := h\<rparr>"
| "step getTime (Measured i h) s = measured i h s"
| "step getTime Commit s = render s"
| "step getTime CommitSync s = renderSync s"
| "step getTime RunPrevEdgeEffect s = prevEdgeEffect s"
| "step getTime RunNextEdgeEffect s = nextEdgeEffect s"
| "step getTime RunShiftEffect s = applyPendingShift s"
| "step getTime (FetchResolved dir entries) s =
     settle dir (\<lambda>year. loadAdjacentYear_resolved getTime year dir entries) s"
| "step getTime (FetchRejected dir err) s =
     settle dir (\<lambda>year. loadAdjacentYear_rejected year dir err) s"

definition run :: "(string \<Rightarrow> int) \<Rightarrow> event list \<Rightarrow> AppState \<Rightarrow> AppState" where
  "run getTime events s = fold (step getTime) events s"


text \<open>
  The state of the component right after a render of the given values, with nothing
  pending and no fetch in flight.
\<close>

definition mounted :: "HookValues \<Rightarrow> HeightStore \<Rightarrow> scrollDir option \<Rightarrow> AppState" where
  "mounted h hs d =
     \<lparr>timeline = timeline h, error = error h, availableYears = availableYears h,
      loadedYears = loadedYears h, loadingPrev = loadingPrev h, loadingNext = loadingNext h,
      canAutoLoad = canAutoLoad h, isTransitioning = isTransitioning h,
      measureVersion = measureVersion h, scrollTop = scrollTop h,
      viewportHeight = viewportHeight h,
      heights = hs, pendingScrollShift = 0, scrollDirection = d, lastScrollTop = scrollTop h,
      closure = Closure h, offsetsMemo = offsets (length (timeline h)) hs, inFlight = []\<rparr>"

section \<open>Jumping to an item: the pending snap\<close>

text \<open>
  \<^verbatim>\<open>pendingSnapRef\<close> holds the request; the effect runs after a render and sees that
  render's item count, height cache, scroll element, measurement epoch and scroll
  position. It returns the request that remains and the scroll position it forced, if any.
\<close>

record PendingSnap =
  index :: nat
  remaining :: int
  lastMeasureVersion :: nat

record Render =
  itemCount :: nat
  heightCache :: HeightStore
  scrollEl :: "real option"
  epoch :: nat
  scrollPos :: real

definition pendingSnapEffect :: "Render \<Rightarrow> PendingSnap option \<Rightarrow> PendingSnap option \<times> real option" where
  "pendingSnapEffect r pending =
     (case pending of
        None \<Rightarrow> (None, None)
      | Some p \<Rightarrow>
          if itemCount r = 0 then (None, None)
          else (case getScrollTarget (itemCount r) (heightCache r) (scrollEl r) (index p) of
                  None \<Rightarrow> (None, None)
                | Some clamped \<Rightarrow>
                    if \<bar>scrollPos r - clamped\<bar> \<le> 2 then (None, None)
                    else if remaining p \<le> 0 then (None, None)
                    else if epoch r = lastMeasureVersion p then (Some p, None)
                    else (Some (p\<lparr>lastMeasureVersion := epoch r, remaining := remaining p - 1\<rparr>),
                          Some clamped)))"

text \<open>
  A request as \<^verbatim>\<open>scrollToToday\<close> and the initial scroll register it, and the effect run
  over a sequence of renders: the request left at the end, and the epochs and targets of
  the snaps forced on the way.
\<close>

definition registerSnap :: "nat \<Rightarrow> nat \<Rightarrow> PendingSnap" where
  "registerSnap targetIndex version =
     \<lparr>index = targetIndex, remaining = SCROLL_SNAP_ATTEMPTS, lastMeasureVersion = version\<rparr>"

fun pendingAfter :: "Render list \<Rightarrow> PendingSnap option \<Rightarrow> PendingSnap option" where
  "pendingAfter [] pending = pending"
| "pendingAfter (r # rs) pending = pendingAfter rs (fst (pendingSnapEffect r pending))"

fun snapsDuring :: "Render list \<Rightarrow> PendingSnap option \<Rightarrow> (nat \<times> real) list" where
  "snapsDuring [] pending = []"
| "snapsDuring (r # rs) pending =
     (case pendingSnapEffect r pending of
        (pending', None) \<Rightarrow> snapsDuring rs pending'
      | (pending', Some target) \<Rightarrow> (epoch r, target) # snapsDuring rs pending')"

section \<open>The scenario of the specification\<close>

text \<open>
  The concrete sequence used in the scenarios: keys \<open>2024-12-30\<close>, \<open>2025-01-02\<close> and
  \<open>2025-06-10\<close>, with a page for 2023 and a page for 2026, and a state of the component
  that holds this sequence with two measured heights.
\<close>

definition gameTitled :: "string \<Rightarrow> Game" where
  "gameTitled t = \<lparr>title = t, genre = [], style = [], studio = [], platforms = []\<rparr>"

definition groupOn :: "string \<Rightarrow> string list \<Rightarrow> ReleaseGroup" where
  "groupOn d titles = \<lparr>date = d, displayDate = d, games = map gameTitled titles\<rparr>"

definition scenarioTimeline :: "ReleaseGroup list" where
  "scenarioTimeline =
     [groupOn ''2024-12-30'' [''A''], groupOn ''2025-01-02'' [''B''], groupOn ''2025-06-10'' [''C'']]"

definition page2023 :: "ReleaseGroup list" where
  "page2023 = [groupOn ''2023-03-14'' [''D''], groupOn ''2023-11-02'' [''E'', ''F'']]"

definition page2026 :: "ReleaseGroup list" where
  "page2026 = [groupOn ''2026-02-20'' [''G'']]"

definition scenarioState :: AppState where
  "scenarioState =
     mounted
       \<lparr>timeline = scenarioTimeline, error = None,
        availableYears = [2023, 2025, 2026], loadedYears = [2025],
        loadingPrev = False, loadingNext = False, canAutoLoad = True, isTransitioning = False,
        measureVersion = 4, scrollTop = 60, viewportHeight = 700\<rparr>
       [0 \<mapsto> 310, 2 \<mapsto> 275] (Some Up)"

text \<open>
  A page for 2023 that gives the same date twice, and a short list: one item for 2025 in a
  viewport of height \<open>800\<close>, scrolled to the top after a wheel movement upwards, with the
  years 2022 and 2023 still to load.
\<close>

definition repeatedPage2023 :: "ReleaseGroup list" where
  "repeatedPage2023 = [groupOn ''2023-03-14'' [''D''], groupOn ''2023-03-14'' [''E'']]"

definition shortState :: AppState where
  "shortState =
     mounted
       \<lparr>timeline = [groupOn ''2025-06-10'' [''C'']], error = None,
        availableYears = [2022, 2023, 2025], loadedYears = [2025],
        loadingPrev = False, loadingNext = False, canAutoLoad = True, isTransitioning = False,
        measureVersion = 1, scrollTop = 0, viewportHeight = 800\<rparr>
       Map.empty (Some Up)"

text \<open>
  The events after which the previous-year effect runs in a render that does not yet have
  the loading flag: the load of 2023 starts and is rendered, the page arrives and is
  rendered, the layout effect applies the shift, the effects of that render run and start
  the load of 2022, and the synchronous render for the shifted scroll position follows.
\<close>

definition raceTrace :: "event list" where
  "raceTrace =
     [RunPrevEdgeEffect, Commit, FetchResolved Prev page2023, Commit, RunShiftEffect,
      RunPrevEdgeEffect, CommitSync]"

section \<open>Auxiliary notions for the proofs\<close>

text \<open>
  The games a page brings for one date; association lists whose keys are the dates of their
  values; and the group \<open>mergeTimeline\<close> builds for an entry whose date is new.
\<close>

definition gamesFor :: "string \<Rightarrow> ReleaseGroup list \<Rightarrow> Game list" where
  "gamesFor k es = concat (map games (filter (\<lambda>e. date e = k) es))"

definition keyed :: "(string \<times> ReleaseGroup) list \<Rightarrow> bool" where
  "keyed m = (\<forall>p\<in>set m. date (snd p) = fst p)"

definition normalized :: "ReleaseGroup \<Rightarrow> ReleaseGroup" where
  "normalized entry =
     \<lparr>date = date entry,
      displayDate = (if displayDate entry = [] then date entry else displayDate entry),
      games = games entry\<rparr>"

section \<open>Notions used to state the pagination properties\<close>



section \<open>A jump whose target keeps moving\<close>

text \<open>
  Renders of a three-item list in a viewport of height \<open>200\<close> in which the first item is
  measured anew before every render, so that the target of a jump to the second item never
  settles.
\<close>

definition renderAt :: "real \<Rightarrow> nat \<Rightarrow> real \<Rightarrow> Render" where
  "renderAt firstHeight version position =
     \<lparr>itemCount = 3, heightCache = [0 \<mapsto> firstHeight], scrollEl = Some 200,
      epoch = version, scrollPos = position\<rparr>"

definition unstableRenders :: "Render list" where
  "unstableRenders = [renderAt 310 5 0, renderAt 320 6 372, renderAt 330 7 382]"

section \<open>Properties of the offset table\<close>

lemma length_offsetsLoop: "length (offsetsLoop count hs i result) = length result"
proof (induction count hs i result rule: offsetsLoop.induct)
  case (1 count hs i result)
  show ?case
  proof (cases "i < count")
    case True
    with "1.IH" show ?thesis by (subst offsetsLoop.simps) simp
  next
    case False
    then show ?thesis by (subst offsetsLoop.simps) simp
  qed
qed

lemma length_offsets: "length (offsets count hs) = count + 1"
  by (simp add: offsets_def length_offsetsLoop)

lemma offsetsLoop_below: "j \<le> i \<Longrightarrow> offsetsLoop count hs i result ! j = result ! j"
proof (induction count hs i result rule: offsetsLoop.induct)
  case (1 count hs i result)
  show ?case
  proof (cases "i < count")
    case True
    with "1.IH" "1.prems" show ?thesis by (subst offsetsLoop.simps) simp
  next
    case False
    then show ?thesis by (subst offsetsLoop.simps) simp
  qed
qed

lemma offsetsLoop_step:
  "i \<le> j \<Longrightarrow> j < count \<Longrightarrow> length result = count + 1 \<Longrightarrow>
   offsetsLoop count hs i result ! (j + 1) =
     offsetsLoop count hs i result ! j + getItemHeight hs j + gapAfter count j"
proof (induction count hs i result rule: offsetsLoop.induct)
  case (1 count hs i result)
  let ?r = "result[i + 1 := result ! i + getItemHeight hs i + gapAfter count i]"
  from "1.prems" have lt: "i < count" by simp
  have unfold: "offsetsLoop count hs i result = offsetsLoop count hs (i + 1) ?r"
    using lt by (subst offsetsLoop.simps) simp
  show ?case
  proof (cases "i = j")
    case True
    have "offsetsLoop count hs (i + 1) ?r ! (i + 1) = ?r ! (i + 1)"
      by (rule offsetsLoop_below) simp
    moreover have "offsetsLoop count hs (i + 1) ?r ! i = ?r ! i"
      by (rule offsetsLoop_below) simp
    moreover have "?r ! (i + 1) = result ! i + getItemHeight hs i + gapAfter count i"
      using "1.prems" lt by simp
    moreover have "?r ! i = result ! i" by simp
    ultimately show ?thesis using True unfold by simp
  next
    case False
    with "1.prems" have "i + 1 \<le> j" by simp
    with "1.IH" [OF lt] "1.prems" show ?thesis using unfold by simp
  qed
qed

lemma offsets_first: "offsets count hs ! 0 = 0"
  by (simp add: offsets_def offsetsLoop_below)

lemma offsets_next:
  "i < count \<Longrightarrow> offsets count hs ! (i + 1) = offsets count hs ! i + getItemHeight hs i + gapAfter count i"
  unfolding offsets_def by (rule offsetsLoop_step) simp_all

lemma gapAfter_last: "i < count \<Longrightarrow> gapAfter count i = (if i + 1 = count then 0 else ITEM_GAP)"
  by (auto simp: gapAfter_def)

lemmas offsets_eval = offsets_def offsetsLoop.simps getItemHeight_def gapAfter_def
  ESTIMATED_ITEM_HEIGHT_def ITEM_GAP_def eval_nat_numeral

subsection \<open>C2: the recurrence of the offset table\<close>

text \<open>
  C2, as stated: every step of the table adds the item's height and the fixed gap. With a
  single item and nothing measured the table is \<open>[0, 260]\<close>: the step into the last slot
  adds the height alone, so the uniform recurrence fails at \<open>i = count - 1\<close>.
\<close>

theorem offsets_uniform_gap_counterexample:
  "offsets 1 Map.empty ! (0 + 1) \<noteq> offsets 1 Map.empty ! 0 + getItemHeight Map.empty 0 + ITEM_GAP"
  by (simp add: offsets_eval)

text \<open>
  C2, amended: the table starts at \<open>0\<close>, and for every index \<open>i\<close> below the count the next
  entry adds the height of item \<open>i\<close> and the gap, except that no gap follows the last item.
\<close>

theorem offsets_recurrence:
  "offsets count hs ! 0 = 0 \<and>
   (\<forall>i<count. offsets count hs ! (i + 1) =
      offsets count hs ! i + getItemHeight hs i + (if i + 1 = count then 0 else ITEM_GAP))"
proof (intro conjI allI impI)
  show "offsets count hs ! 0 = 0" by (rule offsets_first)
next
  fix i assume "i < count"
  then show "offsets count hs ! (i + 1) =
      offsets count hs ! i + getItemHeight hs i + (if i + 1 = count then 0 else ITEM_GAP)"
    using offsets_next [of i count hs] gapAfter_last [of i count] by simp
qed

theorem offsets_recurrence_witness:
  "offsets 3 (Map.empty(1 \<mapsto> 100)) ! 0 = 0 \<and>
   (1::nat) < 3 \<and>
   offsets 3 (Map.empty(1 \<mapsto> 100)) ! (1 + 1) = offsets 3 (Map.empty(1 \<mapsto> 100)) ! 1 + 100 + 32 \<and>
   (2::nat) < 3 \<and>
   offsets 3 (Map.empty(1 \<mapsto> 100)) ! (2 + 1) = offsets 3 (Map.empty(1 \<mapsto> 100)) ! 2 + 260 + 0"
proof -
  let ?hs = "Map.empty(1 \<mapsto> 100::real)"
  note r = offsets_recurrence [of 3 ?hs]
  from r have a: "offsets 3 ?hs ! 0 = 0" by simp
  from r have "(1::nat) < 3 \<longrightarrow> offsets 3 ?hs ! (1 + 1) =
      offsets 3 ?hs ! 1 + getItemHeight ?hs 1 + (if (1::nat) + 1 = 3 then 0 else ITEM_GAP)"
    by blast
  then have b: "offsets 3 ?hs ! (1 + 1) = offsets 3 ?hs ! 1 + 100 + 32"
    by (simp add: getItemHeight_def ITEM_GAP_def)
  from r have "(2::nat) < 3 \<longrightarrow> offsets 3 ?hs ! (2 + 1) =
      offsets 3 ?hs ! 2 + getItemHeight ?hs 2 + (if (2::nat) + 1 = 3 then 0 else ITEM_GAP)"
    by blast
  then have c: "offsets 3 ?hs ! (2 + 1) = offsets 3 ?hs ! 2 + 260 + 0"
    by (simp add: getItemHeight_def ESTIMATED_ITEM_HEIGHT_def)
  from a b c show ?thesis by simp
qed

section \<open>The height cache holds positive heights\<close>

lemma positiveHeights_empty: "positiveHeights Map.empty"
  by (simp add: positiveHeights_def)

lemma positiveHeights_measureItem:
  "positiveHeights hs \<Longrightarrow> positiveHeights (fst (measureItem i height hs))"
  by (auto simp: positiveHeights_def measureItem_def)

lemma positiveHeights_remapHeights:
  "positiveHeights hs \<Longrightarrow> positiveHeights (remapHeights n hs)"
  by (auto simp: positiveHeights_def remapHeights_def split: if_splits)

lemma getItemHeight_pos: "positiveHeights hs \<Longrightarrow> 0 < getItemHeight hs i"
  by (auto simp: positiveHeights_def getItemHeight_def ESTIMATED_ITEM_HEIGHT_def split: option.splits)

lemma gapAfter_nonneg: "0 \<le> gapAfter count i"
  by (simp add: gapAfter_def ITEM_GAP_def)

section \<open>Monotonicity and the binary search\<close>

lemma offsets_step_less:
  assumes "positiveHeights hs" and "i < count"
  shows "offsets count hs ! i < offsets count hs ! (i + 1)"
  using offsets_next [OF assms(2), of hs] getItemHeight_pos [OF assms(1), of i]
    gapAfter_nonneg [of count i] by simp

lemma offsets_mono:
  assumes "positiveHeights hs"
  shows "i \<le> j \<Longrightarrow> j \<le> count \<Longrightarrow> offsets count hs ! i \<le> offsets count hs ! j"
proof (induction j)
  case 0
  then show ?case by simp
next
  case (Suc j)
  show ?case
  proof (cases "i = Suc j")
    case True
    then show ?thesis by simp
  next
    case False
    with Suc.prems have "i \<le> j" and "j < count" by simp_all
    with Suc.IH have "offsets count hs ! i \<le> offsets count hs ! j" by simp
    also have "\<dots> < offsets count hs ! (j + 1)"
      using assms \<open>j < count\<close> by (rule offsets_step_less)
    finally show ?thesis by simp
  qed
qed

lemma offsets_sorted: "positiveHeights hs \<Longrightarrow> sorted (offsets count hs)"
  by (simp add: sorted_iff_nth_mono length_offsets offsets_mono)

lemma offsets_strict_pos:
  assumes "positiveHeights hs" and "1 \<le> j" and "j \<le> count"
  shows "0 < offsets count hs ! j"
proof -
  have "offsets count hs ! 0 < offsets count hs ! (0 + 1)"
    using assms by (intro offsets_step_less) simp_all
  also have "\<dots> \<le> offsets count hs ! j"
    using assms by (intro offsets_mono) simp_all
  finally show ?thesis by (simp add: offsets_first)
qed

text \<open>When every entry the search can probe is at most \<open>x\<close>, the search runs to \<open>high\<close>.\<close>

lemma findLoop_all_le:
  "low \<le> high \<Longrightarrow> (\<forall>j. low \<le> j \<and> j < high \<longrightarrow> offs ! j \<le> x) \<Longrightarrow>
   findLoop offs x low high = high"
proof (induction offs x low high rule: findLoop.induct)
  case (1 offs x low high)
  show ?case
  proof (cases "low < high")
    case True
    define mid where "mid = (low + high) div 2"
    from True have m: "low \<le> mid" "mid < high" by (simp_all add: mid_def)
    with "1.prems" have le: "offs ! mid \<le> x" by simp
    have "findLoop offs x (mid + 1) high = high"
      using "1.IH"(1) [OF True mid_def le] m "1.prems" by simp
    then show ?thesis
      using True le by (subst findLoop.simps) (simp add: mid_def)
  next
    case False
    with "1.prems" show ?thesis by (subst findLoop.simps) simp
  qed
qed

text \<open>When every entry from slot \<open>1\<close> on exceeds \<open>x\<close>, the search stops at \<open>1\<close> at the latest.\<close>

lemma findLoop_first:
  "(\<forall>j. 1 \<le> j \<and> j < high \<longrightarrow> x < offs ! j) \<Longrightarrow> findLoop offs x low high \<le> max low 1"
proof (induction offs x low high rule: findLoop.induct)
  case (1 offs x low high)
  show ?case
  proof (cases "low < high")
    case True
    define mid where "mid = (low + high) div 2"
    from True have m: "low \<le> mid" "mid < high" by (simp_all add: mid_def)
    show ?thesis
    proof (cases "offs ! mid \<le> x")
      case le: True
      have "mid = 0"
      proof (rule ccontr)
        assume "mid \<noteq> 0"
        then have "1 \<le> mid \<and> mid < high" using m by simp
        with "1.prems" have "x < offs ! mid" by blast
        with le show False by simp
      qed
      with m have "low = 0" by simp
      have "findLoop offs x (mid + 1) high \<le> max (mid + 1) 1"
        using "1.IH"(1) [OF True mid_def le] "1.prems" by simp
      then show ?thesis
        using True le \<open>mid = 0\<close> \<open>low = 0\<close> by (subst findLoop.simps) (simp add: mid_def)
    next
      case gt: False
      have "findLoop offs x low mid \<le> max low 1"
        using "1.IH"(2) [OF True mid_def gt] "1.prems" m by simp
      then show ?thesis
        using True gt by (subst findLoop.simps) (simp add: mid_def)
    qed
  next
    case False
    then show ?thesis by (subst findLoop.simps) simp
  qed
qed

lemma findIndexForOffset_single: "findIndexForOffset (offsets 0 hs) x = 0"
  by (subst findIndexForOffset_def, subst findLoop.simps) (simp add: length_offsets)

lemmas find_eval = findIndexForOffset_def findLoop.simps Let_def

subsection \<open>C4: the offset table is sorted and the search hits both ends\<close>

text \<open>
  C4: for every item count and every height cache the component can hold (every stored
  height is positive, which \<open>measureItem\<close> guarantees and the remap keeps), the offset
  table has \<open>count + 1\<close> entries and is non-decreasing; the index for offset \<open>0\<close> is \<open>0\<close>;
  and for a non-empty sequence the index for the total height is \<open>count - 1\<close>.
\<close>

theorem offsets_sorted_and_indexed:
  assumes "positiveHeights hs"
  shows "length (offsets count hs) = count + 1 \<and>
         sorted (offsets count hs) \<and>
         findIndexForOffset (offsets count hs) 0 = 0 \<and>
         (0 < count \<longrightarrow>
            findIndexForOffset (offsets count hs) (totalHeight count hs) = int count - 1)"
proof (intro conjI impI)
  show "length (offsets count hs) = count + 1" by (rule length_offsets)
  show "sorted (offsets count hs)" using assms by (rule offsets_sorted)
  have "findLoop (offsets count hs) 0 0 count \<le> max 0 1"
    using assms by (intro findLoop_first) (simp add: offsets_strict_pos)
  then show "findIndexForOffset (offsets count hs) 0 = 0"
    by (simp add: findIndexForOffset_def length_offsets)
next
  assume "0 < count"
  have "findLoop (offsets count hs) (offsets count hs ! count) 0 count = count"
    using assms by (intro findLoop_all_le) (simp_all add: offsets_mono)
  then show "findIndexForOffset (offsets count hs) (totalHeight count hs) = int count - 1"
    using \<open>0 < count\<close> by (simp add: findIndexForOffset_def totalHeight_def length_offsets)
qed

theorem offsets_sorted_and_indexed_witness:
  "positiveHeights (Map.empty(1 \<mapsto> 100)) \<and>
   length (offsets 3 (Map.empty(1 \<mapsto> 100))) = 3 + 1 \<and>
   sorted (offsets 3 (Map.empty(1 \<mapsto> 100))) \<and>
   offsets 3 (Map.empty(1 \<mapsto> 100)) = [0, 292, 424, 684] \<and>
   findIndexForOffset (offsets 3 (Map.empty(1 \<mapsto> 100))) 0 = 0 \<and>
   (0::nat) < 3 \<and>
   findIndexForOffset (offsets 3 (Map.empty(1 \<mapsto> 100))) (totalHeight 3 (Map.empty(1 \<mapsto> 100))) = int 3 - 1"
proof -
  let ?hs = "Map.empty(1 \<mapsto> 100::real)"
  have p: "positiveHeights ?hs" by (simp add: positiveHeights_def)
  have v: "offsets 3 ?hs = [0, 292, 424, 684]" by (simp add: offsets_eval)
  from offsets_sorted_and_indexed [OF p, of 3] p v show ?thesis by simp
qed

subsection \<open>C5: the rendered window\<close>

text \<open>
  C5: for every scroll position, viewport height and sequence state the window starts at
  the index for \<open>max 0 (scrollTop - overscan)\<close> and ends at the smaller of \<open>count - 1\<close>
  and the index for \<open>scrollTop + viewportHeight + overscan\<close>; for the empty sequence it is
  \<open>{start: 0, end: -1}\<close> whatever the scroll position and viewport height.
\<close>

theorem visibleRange_window:
  "visibleRange count hs st vh =
     \<lparr>start = findIndexForOffset (offsets count hs) (max 0 (st - OVERSCAN_PX)),
      end' = min (int count - 1) (findIndexForOffset (offsets count hs) (st + vh + OVERSCAN_PX))\<rparr>
   \<and> (count = 0 \<longrightarrow> visibleRange count hs st vh = \<lparr>start = 0, end' = - 1\<rparr>)"
  by (simp add: visibleRange_def Let_def findIndexForOffset_single)

theorem visibleRange_window_witness:
  "visibleRange 3 (Map.empty(1 \<mapsto> 100)) 1500 100 = \<lparr>start = 1, end' = 2\<rparr> \<and>
   findIndexForOffset (offsets 3 (Map.empty(1 \<mapsto> 100))) (max 0 (1500 - OVERSCAN_PX)) = 1 \<and>
   min (int 3 - 1) (findIndexForOffset (offsets 3 (Map.empty(1 \<mapsto> 100))) (1500 + 100 + OVERSCAN_PX)) = 2 \<and>
   (0::nat) = 0 \<and> visibleRange 0 Map.empty 500 700 = \<lparr>start = 0, end' = - 1\<rparr>"
proof -
  let ?hs = "Map.empty(1 \<mapsto> 100::real)"
  have v: "offsets 3 ?hs = [0, 292, 424, 684]" by (simp add: offsets_eval)
  have a: "findIndexForOffset (offsets 3 ?hs) (max 0 (1500 - OVERSCAN_PX)) = 1"
    unfolding v OVERSCAN_PX_def by (simp add: find_eval)
  have b: "findIndexForOffset (offsets 3 ?hs) (1500 + 100 + OVERSCAN_PX) = 2"
    unfolding v OVERSCAN_PX_def by (simp add: find_eval)
  have c: "visibleRange 3 ?hs 1500 100 = \<lparr>start = 1, end' = 2\<rparr>"
    using visibleRange_window [of 3 ?hs 1500 100] by (simp only: a b) simp
  have d: "visibleRange 0 Map.empty 500 700 = \<lparr>start = 0, end' = - 1\<rparr>"
    using visibleRange_window [of 0 Map.empty 500 700] by blast
  from a b c d show ?thesis by simp
qed

subsection \<open>C6: the centred scroll target\<close>

text \<open>
  C6, as stated: the centred offset is clamped to \<open>[0, total - viewportHeight]\<close>. With one
  unmeasured item (total height \<open>260\<close>) in a viewport of height \<open>800\<close> the target is \<open>0\<close>,
  while \<open>total - viewportHeight\<close> is negative: the result lies above the stated upper bound.
\<close>

theorem getScrollTarget_upper_bound_counterexample:
  "getScrollTarget 1 Map.empty (Some 800) 0 = Some 0 \<and>
   totalHeight 1 Map.empty - 800 < 0"
  by (simp add: getScrollTarget_def totalHeight_def offsetAt_def Let_def offsets_eval)

text \<open>
  C6, amended: for every target index in a non-empty sequence the centred jump computes
  \<open>itemOffset - viewportHeight / 2 + itemHeight / 2\<close> and clamps it to the interval from
  \<open>0\<close> to \<open>max 0 (total - viewportHeight)\<close>.
\<close>

theorem getScrollTarget_centered:
  "i < count \<longrightarrow>
   getScrollTarget count hs (Some clientHeight) i =
     Some (min (max (offsets count hs ! i - clientHeight / 2 + getItemHeight hs i / 2) 0)
               (max 0 (totalHeight count hs - clientHeight)))"
  by (simp add: getScrollTarget_def Let_def offsetAt_def length_offsets)

theorem getScrollTarget_centered_witness:
  "(3::nat) < 5 \<and>
   getScrollTarget 5 Map.empty (Some 400) 3 = Some 806 \<and>
   offsets 5 Map.empty ! 3 - 400 / 2 + getItemHeight Map.empty 3 / 2 = 806 \<and>
   totalHeight 5 Map.empty - 400 = 1028"
proof -
  have v: "offsets 5 Map.empty = [0, 292, 584, 876, 1168, 1428]"
    by (simp add: offsets_eval)
  have t: "totalHeight 5 Map.empty = 1428"
    unfolding totalHeight_def v by simp
  have h: "getItemHeight Map.empty 3 = 260"
    by (simp add: getItemHeight_def ESTIMATED_ITEM_HEIGHT_def)
  have "getScrollTarget 5 Map.empty (Some 400) 3 = Some 806"
    using getScrollTarget_centered [of 3 5 Map.empty 400] unfolding v t h by simp
  then show ?thesis unfolding v t h by simp
qed

section \<open>Merging pages\<close>

lemma copyGroup_id [simp]: "copyGroup g = g"
  by (simp add: copyGroup_def)

lemma update_fresh: "k \<notin> fst ` set al \<Longrightarrow> AList.update k v al = al @ [(k, v)]"
  by (induction al) auto

lemma set_update_subset: "set (AList.update k v al) \<subseteq> insert (k, v) (set al)"
  by (induction al) auto

lemma keyed_update: "keyed m \<Longrightarrow> date v = k \<Longrightarrow> keyed (AList.update k v m)"
  using set_update_subset [of k v m] by (auto simp: keyed_def)

lemma keyed_map_of: "keyed m \<Longrightarrow> map_of m k = Some g \<Longrightarrow> date g = k"
proof -
  assume k: "keyed m" and "map_of m k = Some g"
  then have "(k, g) \<in> set m" by (simp add: map_of_SomeD)
  with k show ?thesis unfolding keyed_def by fastforce
qed

lemma keyed_addEntry: "keyed m \<Longrightarrow> keyed (addEntry e m)"
  by (auto simp: addEntry_def Let_def freshGroup_def intro!: keyed_update
      split: option.splits dest: keyed_map_of)

lemma keyed_groupEntries: "keyed m \<Longrightarrow> keyed (groupEntries es m)"
  unfolding groupEntries_def by (induction es arbitrary: m) (simp_all add: keyed_addEntry)

lemma keyed_groupPrev: "keyed m \<Longrightarrow> keyed (groupPrev ps m)"
  unfolding groupPrev_def by (induction ps arbitrary: m) (simp_all add: keyed_update)

lemma distinct_addEntry: "distinct (map fst m) \<Longrightarrow> distinct (map fst (addEntry e m))"
  by (simp add: addEntry_def Let_def distinct_update)

lemma distinct_groupEntries: "distinct (map fst m) \<Longrightarrow> distinct (map fst (groupEntries es m))"
  unfolding groupEntries_def by (induction es arbitrary: m) (simp_all add: distinct_addEntry)

lemma distinct_groupPrev: "distinct (map fst m) \<Longrightarrow> distinct (map fst (groupPrev ps m))"
  unfolding groupPrev_def by (induction ps arbitrary: m) (simp_all add: distinct_update)

lemma keys_addEntry: "fst ` set (addEntry e m) = insert (date e) (fst ` set m)"
  by (simp add: addEntry_def Let_def dom_update)

lemma keys_groupEntries: "fst ` set (groupEntries es m) = fst ` set m \<union> date ` set es"
  unfolding groupEntries_def by (induction es arbitrary: m) (auto simp: keys_addEntry)

lemma keys_groupPrev: "fst ` set (groupPrev ps m) = fst ` set m \<union> date ` set ps"
  unfolding groupPrev_def by (induction ps arbitrary: m) (auto simp: dom_update)

lemma keyed_dates: "keyed m \<Longrightarrow> map date (map snd m) = map fst m"
  by (induction m) (auto simp: keyed_def)

lemma mergeTimeline_distinct: "distinct (map date (mergeTimeline getTime prev entries))"
proof -
  let ?m = "groupEntries entries (groupPrev prev [])"
  have k: "keyed ?m" by (intro keyed_groupEntries keyed_groupPrev) (simp add: keyed_def)
  have d: "distinct (map fst ?m)" by (intro distinct_groupEntries distinct_groupPrev) simp
  have "distinct (map date (map snd ?m))" unfolding keyed_dates [OF k] by (rule d)
  then have "distinct (map snd ?m) \<and> inj_on date (set (map snd ?m))"
    by (simp only: distinct_map)
  then have "distinct (map date (sort_key (\<lambda>g. getTime (date g)) (map snd ?m)))"
    by (simp only: distinct_map set_sort distinct_sort)
  then show ?thesis by (simp only: mergeTimeline_def)
qed

lemma mergeTimeline_dates:
  "set (map date (mergeTimeline getTime prev entries)) = date ` set prev \<union> date ` set entries"
proof -
  let ?m = "groupEntries entries (groupPrev prev [])"
  have k: "keyed ?m" by (intro keyed_groupEntries keyed_groupPrev) (simp add: keyed_def)
  have "set (map date (map snd ?m)) = set (map fst ?m)" by (simp only: keyed_dates [OF k])
  then have "date ` set (map snd ?m) = fst ` set ?m" by (simp only: set_map)
  then show ?thesis
    by (simp only: mergeTimeline_def set_map set_sort keys_groupEntries keys_groupPrev) simp
qed

lemma map_of_groupPrev_other:
  "k \<notin> date ` set ps \<Longrightarrow> map_of (groupPrev ps m) k = map_of m k"
  unfolding groupPrev_def by (induction ps arbitrary: m) (auto simp: update_conv')

lemma map_of_groupPrev:
  "distinct (map date ps) \<Longrightarrow> p \<in> set ps \<Longrightarrow> map_of (groupPrev ps m) (date p) = Some p"
proof (induction ps arbitrary: m)
  case Nil
  then show ?case by simp
next
  case (Cons a ps)
  show ?case
  proof (cases "p = a")
    case True
    with Cons.prems have "date p \<notin> date ` set ps" by auto
    then have "map_of (groupPrev ps (AList.update (date a) (copyGroup a) m)) (date p) =
        map_of (AList.update (date a) (copyGroup a) m) (date p)"
      by (rule map_of_groupPrev_other)
    with True show ?thesis by (simp add: groupPrev_def update_conv')
  next
    case False
    with Cons.prems have "p \<in> set ps" "distinct (map date ps)" by auto
    with Cons.IH [of "AList.update (date a) (copyGroup a) m"] show ?thesis
      by (simp add: groupPrev_def)
  qed
qed


lemma map_of_groupEntries:
  "map_of m k = Some c \<Longrightarrow>
   map_of (groupEntries es m) k = Some (c\<lparr>games := games c @ gamesFor k es\<rparr>)"
proof (induction es arbitrary: m c)
  case Nil
  then show ?case by (simp add: groupEntries_def gamesFor_def)
next
  case (Cons e es)
  show ?case
  proof (cases "date e = k")
    case True
    let ?c = "c\<lparr>games := games c @ games e\<rparr>"
    have "map_of (addEntry e m) k = Some ?c"
      using True Cons.prems by (simp add: addEntry_def Let_def update_conv')
    from Cons.IH [OF this] True show ?thesis
      by (simp add: groupEntries_def gamesFor_def)
  next
    case False
    have "map_of (addEntry e m) k = Some c"
      using False Cons.prems by (simp add: addEntry_def Let_def update_conv')
    from Cons.IH [OF this] False show ?thesis
      by (simp add: groupEntries_def gamesFor_def)
  qed
qed

lemma filter_key_singleton:
  "distinct (map fst m) \<Longrightarrow> map_of m k = Some g \<Longrightarrow> filter (\<lambda>p. fst p = k) m = [(k, g)]"
proof (induction m)
  case Nil
  then show ?case by simp
next
  case (Cons a m)
  show ?case
  proof (cases "fst a = k")
    case True
    with Cons.prems have "a = (k, g)" by (cases a) simp
    moreover have "filter (\<lambda>p. fst p = k) m = []"
    proof -
      from Cons.prems True have "k \<notin> fst ` set m" by simp
      then have "\<forall>p\<in>set m. fst p \<noteq> k" by blast
      then show ?thesis by (simp add: filter_empty_conv)
    qed
    ultimately show ?thesis by simp
  next
    case False
    with Cons show ?thesis by simp
  qed
qed

lemma keyed_filter: "keyed m \<Longrightarrow> filter (\<lambda>g. date g = k) (map snd m) = map snd (filter (\<lambda>p. fst p = k) m)"
  by (induction m) (auto simp: keyed_def)

lemma mergeTimeline_existing_key:
  assumes "distinct (map date prev)" and "p \<in> set prev"
  shows "filter (\<lambda>g. date g = date p) (mergeTimeline getTime prev entries) =
           [p\<lparr>games := games p @ gamesFor (date p) entries\<rparr>]"
proof -
  let ?m = "groupEntries entries (groupPrev prev [])"
  have k: "keyed ?m" by (intro keyed_groupEntries keyed_groupPrev) (simp add: keyed_def)
  have d: "distinct (map fst ?m)" by (intro distinct_groupEntries distinct_groupPrev) simp
  have "map_of (groupPrev prev []) (date p) = Some p" using assms by (rule map_of_groupPrev)
  then have "map_of ?m (date p) = Some (p\<lparr>games := games p @ gamesFor (date p) entries\<rparr>)"
    by (rule map_of_groupEntries)
  with d have "filter (\<lambda>q. fst q = date p) ?m = [(date p, p\<lparr>games := games p @ gamesFor (date p) entries\<rparr>)]"
    by (rule filter_key_singleton)
  then have "filter (\<lambda>g. date g = date p) (map snd ?m) = [p\<lparr>games := games p @ gamesFor (date p) entries\<rparr>]"
    by (simp add: keyed_filter [OF k])
  then show ?thesis by (simp add: mergeTimeline_def filter_sort)
qed

lemma newItems_drops: "k \<in> date ` set current \<Longrightarrow> filter (\<lambda>g. date g = k) (newItems current entries) = []"
  by (auto simp: newItems_def filter_empty_conv)

lemma loadNextData_existing_key:
  "k \<in> date ` set current \<Longrightarrow>
   filter (\<lambda>g. date g = k) (loadNextData current entries) = filter (\<lambda>g. date g = k) current"
  by (simp add: loadNextData_def newItems_drops)

lemma loadPrevData_existing_key:
  "k \<in> date ` set current \<Longrightarrow>
   filter (\<lambda>g. date g = k) (loadPrevData current entries) = filter (\<lambda>g. date g = k) current"
  by (simp add: loadPrevData_def newItems_drops)

lemma groupPrev_fresh:
  "distinct (map date ps) \<Longrightarrow> date ` set ps \<inter> fst ` set m = {} \<Longrightarrow>
   groupPrev ps m = m @ map (\<lambda>e. (date e, e)) ps"
proof (induction ps arbitrary: m)
  case Nil
  then show ?case by (simp add: groupPrev_def)
next
  case (Cons a ps)
  from Cons.prems have fresh: "date a \<notin> fst ` set m" by auto
  have step: "AList.update (date a) a m = m @ [(date a, a)]"
    using fresh by (simp add: update_fresh)
  have "groupPrev ps (m @ [(date a, a)]) = (m @ [(date a, a)]) @ map (\<lambda>e. (date e, e)) ps"
    using Cons.prems by (intro Cons.IH) auto
  then show ?case by (simp add: groupPrev_def step)
qed

lemma addEntry_fresh:
  "date e \<notin> fst ` set m \<Longrightarrow> addEntry e m = m @ [(date e, normalized e)]"
proof -
  assume fresh: "date e \<notin> fst ` set m"
  then have "map_of m (date e) = None" by (simp add: map_of_eq_None_iff)
  then show ?thesis
    using fresh by (simp add: addEntry_def Let_def update_fresh freshGroup_def normalized_def)
qed

lemma groupEntries_fresh:
  "distinct (map date es) \<Longrightarrow> date ` set es \<inter> fst ` set m = {} \<Longrightarrow>
   groupEntries es m = m @ map (\<lambda>e. (date e, normalized e)) es"
proof (induction es arbitrary: m)
  case Nil
  then show ?case by (simp add: groupEntries_def)
next
  case (Cons a es)
  from Cons.prems have fresh: "date a \<notin> fst ` set m" by auto
  have "groupEntries es (m @ [(date a, normalized a)]) =
      (m @ [(date a, normalized a)]) @ map (\<lambda>e. (date e, normalized e)) es"
    using Cons.prems by (intro Cons.IH) auto
  then show ?case by (simp add: groupEntries_def addEntry_fresh [OF fresh])
qed

lemma insort_key_past:
  "\<forall>y\<in>set ys. f y < f x \<Longrightarrow> insort_key f x (ys @ zs) = ys @ insort_key f x zs"
  by (induction ys) auto

lemma insort_key_front:
  "\<forall>z\<in>set zs. f x \<le> f z \<Longrightarrow> insort_key f x zs = x # zs"
  by (cases zs) auto

lemma foldr_insort_behind:
  "sorted (map f xs) \<Longrightarrow> \<forall>x\<in>set xs. \<forall>y\<in>set ys. f y < f x \<Longrightarrow>
   foldr (insort_key f) xs ys = ys @ xs"
proof (induction xs)
  case Nil
  then show ?case by simp
next
  case (Cons a xs)
  then have "foldr (insort_key f) xs ys = ys @ xs" by simp
  moreover have "insort_key f a (ys @ xs) = ys @ insort_key f a xs"
    using Cons.prems by (intro insort_key_past) simp
  moreover have "insort_key f a xs = a # xs"
    using Cons.prems by (intro insort_key_front) simp
  ultimately show ?case by simp
qed

lemma sort_key_older_first:
  assumes "sorted (map f xs)" and "\<forall>x\<in>set xs. \<forall>y\<in>set ys. f y < f x"
  shows "sort_key f (xs @ ys) = sort_key f ys @ xs"
proof -
  have "sort_key f (xs @ ys) = foldr (insort_key f) xs (sort_key f ys)"
    by (simp add: sort_key_def)
  also have "\<dots> = sort_key f ys @ xs"
    using assms by (intro foldr_insort_behind) simp_all
  finally show ?thesis .
qed

lemma mergeTimeline_prepend:
  assumes "sorted (map (\<lambda>g. getTime (date g)) prev)" and "distinct (map date prev)"
    and "distinct (map date entries)"
    and "\<forall>e\<in>set entries. \<forall>p\<in>set prev. getTime (date e) < getTime (date p)"
  shows "mergeTimeline getTime prev entries =
           sort_key (\<lambda>g. getTime (date g)) (map normalized entries) @ prev"
proof -
  have disj: "date ` set entries \<inter> date ` set prev = {}"
    using assms(4) by fastforce
  have gp: "groupPrev prev [] = map (\<lambda>e. (date e, e)) prev"
    using groupPrev_fresh [OF assms(2), of "[]"] by simp
  have "groupEntries entries (groupPrev prev []) =
      map (\<lambda>e. (date e, e)) prev @ map (\<lambda>e. (date e, normalized e)) entries"
    unfolding gp using disj by (intro groupEntries_fresh [OF assms(3)]) (simp add: image_image)
  then have "map snd (groupEntries entries (groupPrev prev [])) = prev @ map normalized entries"
    by (simp add: comp_def)
  moreover have "sort_key (\<lambda>g. getTime (date g)) (prev @ map normalized entries) =
      sort_key (\<lambda>g. getTime (date g)) (map normalized entries) @ prev"
    using assms(1,4) by (intro sort_key_older_first) (auto simp: normalized_def)
  ultimately show ?thesis by (simp add: mergeTimeline_def)
qed

lemmas scenario_eval = scenarioTimeline_def page2023_def page2026_def groupOn_def gameTitled_def
  isoDateTime_def numberOf_def digitValue_def daysFromCivil_def

lemmas merge_eval = mergeTimeline_def groupEntries_def groupPrev_def addEntry_def copyGroup_def
  freshGroup_def

subsection \<open>C1: a page that brings a date already present\<close>

text \<open>
  C1, as stated: an incoming item whose date is already in the sequence is dropped, not
  merged. \<open>mergeTimeline\<close> pushes the incoming games onto the existing group: merging a
  page with one group for \<open>2025-01-02\<close> into the scenario sequence changes that group's
  games from \<open>B\<close> to \<open>B, Z\<close>.
\<close>

theorem mergeTimeline_merges_counterexample:
  "mergeTimeline isoDateTime scenarioTimeline [groupOn ''2025-01-02'' [''Z'']] =
     [groupOn ''2024-12-30'' [''A''], groupOn ''2025-01-02'' [''B'', ''Z''], groupOn ''2025-06-10'' [''C'']]
   \<and> mergeTimeline isoDateTime scenarioTimeline [groupOn ''2025-01-02'' [''Z'']] \<noteq> scenarioTimeline"
  by (simp add: merge_eval scenario_eval)

text \<open>
  C1, amended: merging a page deduplicates by date. After \<open>mergeTimeline\<close> every date
  occurs once; for a sequence with distinct dates, the one item with a date that was
  already present is the existing item with the games of the incoming items of that date
  appended (merged, not dropped). In the variant with \<open>loadNext\<close> and \<open>loadPrev\<close> the
  incoming items with a date already present are dropped, and the items of that date are
  those of the sequence before.
\<close>

theorem merge_existing_key:
  "distinct (map date (mergeTimeline getTime prev entries)) \<and>
   (distinct (map date prev) \<and> p \<in> set prev \<longrightarrow>
      filter (\<lambda>g. date g = date p) (mergeTimeline getTime prev entries) =
        [p\<lparr>games := games p @ gamesFor (date p) entries\<rparr>]) \<and>
   (p \<in> set prev \<longrightarrow>
      filter (\<lambda>g. date g = date p) (loadNextData prev entries) = filter (\<lambda>g. date g = date p) prev \<and>
      filter (\<lambda>g. date g = date p) (loadPrevData prev entries) = filter (\<lambda>g. date g = date p) prev)"
proof (intro conjI impI)
  show "distinct (map date (mergeTimeline getTime prev entries))"
    by (rule mergeTimeline_distinct)
next
  assume "distinct (map date prev) \<and> p \<in> set prev"
  then show "filter (\<lambda>g. date g = date p) (mergeTimeline getTime prev entries) =
        [p\<lparr>games := games p @ gamesFor (date p) entries\<rparr>]"
    by (simp add: mergeTimeline_existing_key)
next
  assume "p \<in> set prev"
  then have "date p \<in> date ` set prev" by simp
  then show "filter (\<lambda>g. date g = date p) (loadNextData prev entries) = filter (\<lambda>g. date g = date p) prev"
    by (rule loadNextData_existing_key)
next
  assume "p \<in> set prev"
  then have "date p \<in> date ` set prev" by simp
  then show "filter (\<lambda>g. date g = date p) (loadPrevData prev entries) = filter (\<lambda>g. date g = date p) prev"
    by (rule loadPrevData_existing_key)
qed

theorem merge_existing_key_witness:
  "distinct (map date scenarioTimeline) \<and> groupOn ''2025-01-02'' [''B''] \<in> set scenarioTimeline \<and>
   filter (\<lambda>g. date g = ''2025-01-02'')
     (mergeTimeline isoDateTime scenarioTimeline [groupOn ''2025-01-02'' [''Z''], groupOn ''2025-03-01'' [''Y'']])
     = [groupOn ''2025-01-02'' [''B'', ''Z'']] \<and>
   filter (\<lambda>g. date g = ''2025-01-02'')
     (loadNextData scenarioTimeline [groupOn ''2025-01-02'' [''Z''], groupOn ''2025-03-01'' [''Y'']])
     = [groupOn ''2025-01-02'' [''B'']] \<and>
   filter (\<lambda>g. date g = ''2025-01-02'')
     (loadPrevData scenarioTimeline [groupOn ''2025-01-02'' [''Z''], groupOn ''2025-03-01'' [''Y'']])
     = [groupOn ''2025-01-02'' [''B'']]"
proof -
  let ?p = "groupOn ''2025-01-02'' [''B'']"
  let ?es = "[groupOn ''2025-01-02'' [''Z''], groupOn ''2025-03-01'' [''Y'']]"
  have d: "distinct (map date scenarioTimeline)" by (simp add: scenarioTimeline_def groupOn_def)
  have m: "?p \<in> set scenarioTimeline" by (simp add: scenarioTimeline_def)
  have k: "date ?p = ''2025-01-02''" by (simp add: groupOn_def)
  have g: "?p\<lparr>games := games ?p @ gamesFor ''2025-01-02'' ?es\<rparr> = groupOn ''2025-01-02'' [''B'', ''Z'']"
    by (simp add: gamesFor_def groupOn_def)
  have f: "filter (\<lambda>g. date g = ''2025-01-02'') scenarioTimeline = [?p]"
    by (simp add: scenarioTimeline_def groupOn_def)
  note r = merge_existing_key [of isoDateTime scenarioTimeline ?es ?p]
  from r d m have "filter (\<lambda>g. date g = date ?p) (mergeTimeline isoDateTime scenarioTimeline ?es) =
      [?p\<lparr>games := games ?p @ gamesFor (date ?p) ?es\<rparr>]" by blast
  then have a: "filter (\<lambda>g. date g = ''2025-01-02'') (mergeTimeline isoDateTime scenarioTimeline ?es) =
      [groupOn ''2025-01-02'' [''B'', ''Z'']]" by (simp only: k g)
  from r m have "filter (\<lambda>g. date g = date ?p) (loadNextData scenarioTimeline ?es) = filter (\<lambda>g. date g = date ?p) scenarioTimeline"
    by blast
  then have b: "filter (\<lambda>g. date g = ''2025-01-02'') (loadNextData scenarioTimeline ?es) = [?p]"
    by (simp only: k f)
  from r m have "filter (\<lambda>g. date g = date ?p) (loadPrevData scenarioTimeline ?es) = filter (\<lambda>g. date g = date ?p) scenarioTimeline"
    by blast
  then have c: "filter (\<lambda>g. date g = ''2025-01-02'') (loadPrevData scenarioTimeline ?es) = [?p]"
    by (simp only: k f)
  from d m a b c show ?thesis by blast
qed

section \<open>Prepending a page\<close>

lemma timeline_setLoading [simp]: "timeline (setLoading dir b s) = timeline s"
  by (cases dir) (simp_all add: setLoading_def)

lemma heights_setLoading [simp]: "heights (setLoading dir b s) = heights s"
  by (cases dir) (simp_all add: setLoading_def)

lemma heights_resolved_prev:
  "heights (loadAdjacentYear_resolved getTime year Prev entries s) =
     remapHeights (length entries) (heights s)"
  by (auto simp: loadAdjacentYear_resolved_def Let_def remapHeights_def)

lemma timeline_resolved:
  "timeline (loadAdjacentYear_resolved getTime year dir entries s) =
     mergeTimeline getTime (timeline s) entries"
  by (simp add: loadAdjacentYear_resolved_def Let_def)

lemmas state_eval = scenarioState_def shortState_def mounted_def

text \<open>
  Where the page has distinct dates, all of them new and older than every date of the
  sequence, the page's length is the number of items prepended and the remap is right: the
  item that was at position \<open>i\<close> is at position \<open>i + n\<close>, and so is its height.
\<close>

lemma prepend_of_new_dates:
  assumes "sorted (map (\<lambda>g. getTime (date g)) (timeline s))"
    and "distinct (map date (timeline s))"
    and "distinct (map date entries)"
    and "\<forall>e\<in>set entries. \<forall>p\<in>set (timeline s). getTime (date e) < getTime (date p)"
  shows "length (timeline (loadAdjacentYear_resolved getTime year Prev entries s)) =
           length entries + length (timeline s) \<and>
         (\<forall>i. heights (loadAdjacentYear_resolved getTime year Prev entries s) (i + length entries) =
                heights s i) \<and>
         (\<forall>j<length entries. heights (loadAdjacentYear_resolved getTime year Prev entries s) j = None) \<and>
         (\<forall>i<length (timeline s).
            timeline (loadAdjacentYear_resolved getTime year Prev entries s) ! (i + length entries) =
              timeline s ! i)"
proof -
  let ?s' = "loadAdjacentYear_resolved getTime year Prev entries s"
  let ?new = "sort_key (\<lambda>g. getTime (date g)) (map normalized entries)"
  have t: "timeline ?s' = ?new @ timeline s"
    using assms by (simp add: timeline_resolved mergeTimeline_prepend)
  have n: "length ?new = length entries" by simp
  have "\<forall>i<length (timeline s). timeline ?s' ! (i + length entries) = timeline s ! i"
    by (simp add: t nth_append)
  moreover have "length (timeline ?s') = length entries + length (timeline s)"
    by (simp add: t)
  moreover have "\<forall>i. heights ?s' (i + length entries) = heights s i"
    by (simp add: heights_resolved_prev remapHeights_def)
  moreover have "\<forall>j<length entries. heights ?s' j = None"
    by (simp add: heights_resolved_prev remapHeights_def)
  ultimately show ?thesis by blast
qed

lemma scenario_older_page:
  "sorted (map (\<lambda>g. isoDateTime (date g)) (timeline scenarioState))"
  "distinct (map date (timeline scenarioState))"
  "distinct (map date page2023)"
  "\<forall>e\<in>set page2023. \<forall>p\<in>set (timeline scenarioState). isoDateTime (date e) < isoDateTime (date p)"
  by (simp_all add: state_eval scenario_eval)

text \<open>
  The scenario of the specification is such a page: after the 2023 page is loaded, the
  height recorded for \<open>2024-12-30\<close> is stored at the position of \<open>2024-12-30\<close>.
\<close>

lemma scenario_page2023_keeps_height:
  "date (timeline scenarioState ! 0) = ''2024-12-30'' \<and>
   heights scenarioState 0 = Some 310 \<and>
   length page2023 = 2 \<and>
   date (timeline (loadAdjacentYear_resolved isoDateTime 2023 Prev page2023 scenarioState) ! (0 + 2)) = ''2024-12-30'' \<and>
   heights (loadAdjacentYear_resolved isoDateTime 2023 Prev page2023 scenarioState) (0 + 2) = Some 310"
proof -
  let ?s' = "loadAdjacentYear_resolved isoDateTime 2023 Prev page2023 scenarioState"
  have l: "length page2023 = 2" "0 < length (timeline scenarioState)"
    by (simp_all add: page2023_def state_eval scenarioTimeline_def)
  have k: "date (timeline scenarioState ! 0) = ''2024-12-30''" "heights scenarioState 0 = Some 310"
    by (simp_all add: state_eval scenarioTimeline_def groupOn_def)
  note r = prepend_of_new_dates [OF scenario_older_page, of 2023]
  from r l have "timeline ?s' ! (0 + length page2023) = timeline scenarioState ! 0" by blast
  with l k have a: "date (timeline ?s' ! (0 + 2)) = ''2024-12-30''" by simp
  from r have "heights ?s' (0 + length page2023) = heights scenarioState 0" by blast
  with l k have b: "heights ?s' (0 + 2) = Some 310" by simp
  from k l a b show ?thesis by blast
qed

text \<open>
  The variant with \<open>loadPrev\<close> moves its first-item index by the number of items that
  are new, not by the length of the page.
\<close>

lemma loadPrevData_length:
  "length (loadPrevData current entries) = length (newItems current entries) + length current"
  by (simp add: loadPrevData_def)

subsection \<open>C3: measured heights and a page that repeats a date\<close>

text \<open>
  C3: every stored height is shifted up by the number of prepended items, so that each
  measurement stays with its item. \<open>loadAdjacentYear\<close> shifts by the length of the page,
  while \<open>mergeTimeline\<close> groups the page by date. For the scenario sequence and a page for
  2023 that gives \<open>2023-03-14\<close> twice, one item is prepended and the heights move by two:
  the height \<open>310\<close> measured for \<open>2024-12-30\<close>, now at position \<open>1\<close>, is stored at
  position \<open>2\<close>, which holds \<open>2025-01-02\<close>, and position \<open>1\<close> has no height.
\<close>

theorem remap_repeated_date:
  "map date (timeline scenarioState) = [''2024-12-30'', ''2025-01-02'', ''2025-06-10''] \<and>
   heights scenarioState 0 = Some 310 \<and>
   length repeatedPage2023 = 2 \<and>
   map date (timeline (loadAdjacentYear_resolved isoDateTime 2023 Prev repeatedPage2023 scenarioState)) =
     [''2023-03-14'', ''2024-12-30'', ''2025-01-02'', ''2025-06-10''] \<and>
   heights (loadAdjacentYear_resolved isoDateTime 2023 Prev repeatedPage2023 scenarioState) 1 = None \<and>
   heights (loadAdjacentYear_resolved isoDateTime 2023 Prev repeatedPage2023 scenarioState) 2 = Some 310 \<and>
   heights (loadAdjacentYear_resolved isoDateTime 2023 Prev repeatedPage2023 scenarioState) 4 = Some 275"
proof -
  have t: "map date (mergeTimeline isoDateTime scenarioTimeline repeatedPage2023) =
      [''2023-03-14'', ''2024-12-30'', ''2025-01-02'', ''2025-06-10'']"
    by (simp add: merge_eval scenario_eval repeatedPage2023_def)
  have s: "timeline scenarioState = scenarioTimeline" "heights scenarioState = [0 \<mapsto> 310, 2 \<mapsto> 275]"
    by (simp_all add: state_eval)
  have l: "length repeatedPage2023 = 2" by (simp add: repeatedPage2023_def)
  have d: "map date scenarioTimeline = [''2024-12-30'', ''2025-01-02'', ''2025-06-10'']"
    by (simp add: scenarioTimeline_def groupOn_def)
  show ?thesis
    by (simp add: timeline_resolved heights_resolved_prev s t l d remapHeights_def)
qed

lemma fields_setLoading [simp]:
  "pendingScrollShift (setLoading dir b s) = pendingScrollShift s"
  "scrollTop (setLoading dir b s) = scrollTop s"
  "viewportHeight (setLoading dir b s) = viewportHeight s"
  by (cases dir; simp add: setLoading_def)+

lemma fields_resolved [simp]:
  "scrollTop (loadAdjacentYear_resolved getTime year dir entries s) = scrollTop s"
  "viewportHeight (loadAdjacentYear_resolved getTime year dir entries s) = viewportHeight s"
  by (simp_all add: loadAdjacentYear_resolved_def Let_def)

lemma pendingScrollShift_resolved_prev:
  "pendingScrollShift (loadAdjacentYear_resolved getTime year Prev entries s) =
     pendingScrollShift s + estimateAddedHeight (int (length entries))"
  by (simp add: loadAdjacentYear_resolved_def Let_def estimateAddedHeight_def)

lemma estimateAddedHeight_length:
  "estimateAddedHeight (int (length entries)) =
     real (length entries) * (ESTIMATED_ITEM_HEIGHT + ITEM_GAP)"
  by (simp add: estimateAddedHeight_def)

lemma renderedTotalHeight_render:
  "renderedTotalHeight (render s) = totalHeight (length (timeline s)) (heights s)"
proof -
  have "offsets (length (timeline s)) (heights s) \<noteq> []"
    using length_offsets [of "length (timeline s)" "heights s"] by auto
  then show ?thesis by (simp add: renderedTotalHeight_def render_def totalHeight_def Let_def)
qed

lemma fields_render [simp]:
  "pendingScrollShift (render s) = pendingScrollShift s"
  "scrollTop (render s) = scrollTop s"
  "viewportHeight (render s) = viewportHeight s"
  "timeline (render s) = timeline s"
  "heights (render s) = heights s"
  by (simp_all add: render_def)

lemma scrollTop_applyPendingShift:
  "scrollTop (applyPendingShift s) =
     (if pendingScrollShift s = 0 then scrollTop s
      else min (max (scrollTop s + pendingScrollShift s) 0)
               (max 0 (renderedTotalHeight s - viewportHeight s)))"
  by (simp add: applyPendingShift_def Let_def)

subsection \<open>C10: the shift applied for a prepend\<close>

text \<open>
  C10, as stated: the shift applied to the scroll offset for a prepend of \<open>n\<close> items is
  \<open>n * (estimate + gap)\<close>. The layout effect clamps the shifted offset to the scrollable
  range. For the short list (one item, viewport \<open>800\<close>, scrolled to the top) the 2023 page
  prepends two items; the requested shift is \<open>584\<close>, the table of the three items ends at
  \<open>844\<close>, and the scroll offset goes from \<open>0\<close> to \<open>44\<close>.
\<close>

theorem prepend_shift_clamped_counterexample:
  "length (timeline shortState) = 1 \<and>
   length (timeline (loadAdjacentYear_resolved isoDateTime 2023 Prev page2023 shortState)) = 3 \<and>
   scrollTop shortState = 0 \<and>
   scrollTop (applyPendingShift (render (loadAdjacentYear_resolved isoDateTime 2023 Prev page2023 shortState)))
     = 44 \<and>
   2 * (ESTIMATED_ITEM_HEIGHT + ITEM_GAP) = 584 \<and>
   scrollTop (applyPendingShift (render (loadAdjacentYear_resolved isoDateTime 2023 Prev page2023 shortState)))
     \<noteq> scrollTop shortState + 2 * (ESTIMATED_ITEM_HEIGHT + ITEM_GAP)"
proof -
  let ?s1 = "loadAdjacentYear_resolved isoDateTime 2023 Prev page2023 shortState"
  have t: "length (mergeTimeline isoDateTime [groupOn ''2025-06-10'' [''C'']] page2023) = 3"
    by (simp add: merge_eval scenario_eval)
  have s: "timeline shortState = [groupOn ''2025-06-10'' [''C'']]" "heights shortState = Map.empty"
    "scrollTop shortState = 0" "viewportHeight shortState = 800" "pendingScrollShift shortState = 0"
    by (simp_all add: state_eval)
  have l: "length page2023 = 2" by (simp add: page2023_def)
  have n: "length (timeline ?s1) = 3" by (simp add: timeline_resolved s t)
  have h: "heights ?s1 = remapHeights 2 Map.empty" by (simp add: heights_resolved_prev s l)
  have o: "totalHeight 3 (remapHeights 2 Map.empty) = 844"
    by (simp add: totalHeight_def remapHeights_def offsets_eval)
  have p: "pendingScrollShift ?s1 = 584"
    by (simp add: pendingScrollShift_resolved_prev s l estimateAddedHeight_def
        ESTIMATED_ITEM_HEIGHT_def ITEM_GAP_def)
  have "scrollTop (applyPendingShift (render ?s1)) = 44"
    by (simp add: scrollTop_applyPendingShift renderedTotalHeight_render n h o p s)
  with n s show ?thesis by (simp add: ESTIMATED_ITEM_HEIGHT_def ITEM_GAP_def)
qed

text \<open>
  C10, amended: for a page of \<open>n\<close> items with distinct dates, all new and older than the
  sequence (so that \<open>n\<close> items are prepended), and no shift pending, the shift requested
  is \<open>n * (estimate + gap)\<close>, as \<open>estimateAddedHeight\<close> gives it (\<open>0\<close> for \<open>n \<le> 0\<close>); the
  layout effect of the render that follows moves the scroll offset to the shifted offset
  clamped to the interval from \<open>0\<close> to \<open>max 0 (total - viewportHeight)\<close>, where the total
  is that of the grown list with the remapped heights; and the offset moves by exactly
  \<open>n * (estimate + gap)\<close> when the shifted offset lies in that interval. An empty page
  leaves the scroll offset where it is.
\<close>

theorem prepend_shift_applied:
  assumes "sorted (map (\<lambda>g. getTime (date g)) (timeline s))"
    and "distinct (map date (timeline s))"
    and "distinct (map date entries)"
    and "\<forall>e\<in>set entries. \<forall>p\<in>set (timeline s). getTime (date e) < getTime (date p)"
    and "pendingScrollShift s = 0"
  shows "(0 < n \<longrightarrow> estimateAddedHeight n = of_int n * (ESTIMATED_ITEM_HEIGHT + ITEM_GAP)) \<and>
         (n \<le> 0 \<longrightarrow> estimateAddedHeight n = 0) \<and>
         length (timeline (loadAdjacentYear_resolved getTime year Prev entries s)) =
           length entries + length (timeline s) \<and>
         pendingScrollShift (loadAdjacentYear_resolved getTime year Prev entries s) =
           real (length entries) * (ESTIMATED_ITEM_HEIGHT + ITEM_GAP) \<and>
         scrollTop (applyPendingShift (render (loadAdjacentYear_resolved getTime year Prev entries s))) =
           (if entries = [] then scrollTop s
            else min (max (scrollTop s + real (length entries) * (ESTIMATED_ITEM_HEIGHT + ITEM_GAP)) 0)
                     (max 0 (totalHeight (length entries + length (timeline s))
                               (remapHeights (length entries) (heights s))
                             - viewportHeight s))) \<and>
         (0 \<le> scrollTop s \<and>
          scrollTop s + real (length entries) * (ESTIMATED_ITEM_HEIGHT + ITEM_GAP)
            \<le> totalHeight (length entries + length (timeline s))
                 (remapHeights (length entries) (heights s)) - viewportHeight s \<longrightarrow>
          scrollTop (applyPendingShift (render (loadAdjacentYear_resolved getTime year Prev entries s))) =
            scrollTop s + real (length entries) * (ESTIMATED_ITEM_HEIGHT + ITEM_GAP))"
proof -
  let ?s1 = "loadAdjacentYear_resolved getTime year Prev entries s"
  let ?shift = "real (length entries) * (ESTIMATED_ITEM_HEIGHT + ITEM_GAP)"
  let ?total = "totalHeight (length entries + length (timeline s))
                  (remapHeights (length entries) (heights s))"
  have e: "(0 < n \<longrightarrow> estimateAddedHeight n = of_int n * (ESTIMATED_ITEM_HEIGHT + ITEM_GAP)) \<and>
      (n \<le> 0 \<longrightarrow> estimateAddedHeight n = 0)"
    by (simp add: estimateAddedHeight_def)
  have n: "length (timeline ?s1) = length entries + length (timeline s)"
    using prepend_of_new_dates [OF assms(1-4), of year] by blast
  have p: "pendingScrollShift ?s1 = ?shift"
    by (simp add: pendingScrollShift_resolved_prev assms(5) estimateAddedHeight_length)
  have z: "ESTIMATED_ITEM_HEIGHT + ITEM_GAP \<noteq> 0"
    by (simp add: ESTIMATED_ITEM_HEIGHT_def ITEM_GAP_def)
  have a: "scrollTop (applyPendingShift (render ?s1)) =
      (if entries = [] then scrollTop s
       else min (max (scrollTop s + ?shift) 0) (max 0 (?total - viewportHeight s)))"
    by (simp add: scrollTop_applyPendingShift renderedTotalHeight_render n p z
        heights_resolved_prev)
  have b: "scrollTop (applyPendingShift (render ?s1)) = scrollTop s + ?shift"
    if "0 \<le> scrollTop s \<and> scrollTop s + ?shift \<le> ?total - viewportHeight s"
  proof (cases "entries = []")
    case True
    with a show ?thesis by simp
  next
    case False
    have "0 \<le> ?shift" by (simp add: ESTIMATED_ITEM_HEIGHT_def ITEM_GAP_def)
    with that False a show ?thesis by simp
  qed
  from e n p a b show ?thesis by blast
qed

theorem prepend_shift_applied_witness:
  "pendingScrollShift scenarioState = 0 \<and>
   (0::int) < 2 \<and> estimateAddedHeight 2 = 584 \<and>
   (- 1::int) \<le> 0 \<and> estimateAddedHeight (- 1) = 0 \<and>
   length page2023 = 2 \<and>
   length (timeline (loadAdjacentYear_resolved isoDateTime 2023 Prev page2023 scenarioState)) = 5 \<and>
   pendingScrollShift (loadAdjacentYear_resolved isoDateTime 2023 Prev page2023 scenarioState) = 584 \<and>
   scrollTop scenarioState = 60 \<and>
   60 + 584 \<le> totalHeight 5 (remapHeights 2 (heights scenarioState)) - viewportHeight scenarioState \<and>
   scrollTop (applyPendingShift (render (loadAdjacentYear_resolved isoDateTime 2023 Prev page2023 scenarioState)))
     = 60 + 584"
proof -
  let ?s1 = "loadAdjacentYear_resolved isoDateTime 2023 Prev page2023 scenarioState"
  have z: "pendingScrollShift scenarioState = 0" by (simp add: state_eval)
  have s: "scrollTop scenarioState = 60" "viewportHeight scenarioState = 700"
    "heights scenarioState = [0 \<mapsto> 310, 2 \<mapsto> 275]" "length (timeline scenarioState) = 3"
    by (simp_all add: state_eval scenarioTimeline_def)
  have l: "length page2023 = 2" by (simp add: page2023_def)
  have c: "ESTIMATED_ITEM_HEIGHT + ITEM_GAP = 292"
    by (simp add: ESTIMATED_ITEM_HEIGHT_def ITEM_GAP_def)
  have o: "totalHeight 5 (remapHeights 2 [0 \<mapsto> 310, 2 \<mapsto> 275]) = 1493"
    by (simp add: totalHeight_def remapHeights_def offsets_eval)
  note r2 = prepend_shift_applied [OF scenario_older_page z, of 2 2023]
  note r1 = prepend_shift_applied [OF scenario_older_page z, of "- 1" 2023]
  from r2 have a: "estimateAddedHeight 2 = 584" by (simp add: c)
  from r1 have b: "estimateAddedHeight (- 1) = 0" by simp
  from r2 have n: "length (timeline ?s1) = 5" by (simp add: l s)
  from r2 have p: "pendingScrollShift ?s1 = 584" by (simp add: l c)
  have i: "60 + 584 \<le> totalHeight 5 (remapHeights 2 (heights scenarioState)) - viewportHeight scenarioState"
    by (simp add: s o)
  have "0 \<le> scrollTop scenarioState \<and>
      scrollTop scenarioState + real (length page2023) * (ESTIMATED_ITEM_HEIGHT + ITEM_GAP)
        \<le> totalHeight (length page2023 + length (timeline scenarioState))
             (remapHeights (length page2023) (heights scenarioState)) - viewportHeight scenarioState"
    by (simp add: s l c o)
  with r2 have "scrollTop (applyPendingShift (render ?s1)) =
      scrollTop scenarioState + real (length page2023) * (ESTIMATED_ITEM_HEIGHT + ITEM_GAP)"
    by blast
  then have q: "scrollTop (applyPendingShift (render ?s1)) = 60 + 584" by (simp add: s l c)
  from z a b l n p s i q show ?thesis by simp
qed

section \<open>Pagination: starting and settling fetches\<close>

lemma inFlight_setLoading [simp]: "inFlight (setLoading dir b s) = inFlight s"
  by (cases dir) (simp_all add: setLoading_def)

lemma inFlight_resolved [simp]:
  "inFlight (loadAdjacentYear_resolved getTime year dir entries s) = inFlight s"
  by (simp add: loadAdjacentYear_resolved_def Let_def)

lemma inFlight_rejected [simp]:
  "inFlight (loadAdjacentYear_rejected year dir err s) = inFlight s"
  by (simp add: loadAdjacentYear_rejected_def)

lemma inFlight_handlers [simp]:
  "inFlight (handleWheel x s) = inFlight s"
  "inFlight (markUserInteraction s) = inFlight s"
  "inFlight (handleScroll x s) = inFlight s"
  "inFlight (measured i h s) = inFlight s"
  "inFlight (applyPendingShift s) = inFlight s"
  "inFlight (render s) = inFlight s"
  "inFlight (renderSync s) = inFlight s"
  by (simp_all add: handleWheel_def markUserInteraction_def handleScroll_def measured_def
      applyPendingShift_def render_def renderSync_def Let_def split: prod.splits)



lemmas pagination_eval = run_def prevEdgeEffect_def nextEdgeEffect_def prevEdgeReached_def
  nextEdgeReached_def prevYear_def nextYear_def minLoadedYear_def maxLoadedYear_def falsyYear_def
  loadAdjacentYear_begin_def loadAdjacentYear_rejected_def setLoading_def settle_def fetchesOf_def
  handleScroll_def handleWheel_def markUserInteraction_def failureMessage_def
  render_def renderSync_def hookValues_def SCROLL_THRESHOLD_def Let_def


subsection \<open>C8: a fetch that fails\<close>




subsection \<open>C9: a second fetch for the same direction\<close>

text \<open>
  The loading flag is a state variable: an edge effect is held back by the flag of its own
  render, not by a flag set since.
\<close>

lemma edge_effect_skipped_when_rendered_loading:
  "loadingPrev (rendered s) \<Longrightarrow> prevEdgeEffect s = s"
  "loadingNext (rendered s) \<Longrightarrow> nextEdgeEffect s = s"
  by (simp_all add: prevEdgeEffect_def prevEdgeReached_def nextEdgeEffect_def nextEdgeReached_def)

text \<open>
  C9: at most one fetch per direction is in flight. In the short list the page for 2023
  arrives and is rendered; the layout effect shifts the scroll offset, which the short
  content clamps to \<open>44\<close>, inside the threshold; the effects of that render start the
  fetch of 2022 and set the flag; the synchronous render for the new scroll offset comes
  before the flag is rendered, and the previous-year effect, whose dependency
  \<open>scrollTop\<close> has changed, runs in it with the flag still clear and the direction still
  upwards: it starts the fetch of 2022 a second time while the first is in flight.
\<close>

theorem second_fetch_while_loading:
  "fetchesOf Prev (run isoDateTime raceTrace shortState) = [(Prev, 2022)] \<and>
   loadingPrev (run isoDateTime raceTrace shortState) \<and>
   \<not> loadingPrev (rendered (run isoDateTime raceTrace shortState)) \<and>
   scrollTop (rendered (run isoDateTime raceTrace shortState)) = 44 \<and>
   scrollDirection (run isoDateTime raceTrace shortState) = Some Up \<and>
   fetchesOf Prev (step isoDateTime RunPrevEdgeEffect (run isoDateTime raceTrace shortState)) =
     [(Prev, 2022), (Prev, 2022)]"
proof -
  have m: "mergeTimeline isoDateTime [groupOn ''2025-06-10'' [''C'']] page2023 =
      [groupOn ''2023-03-14'' [''D''], groupOn ''2023-11-02'' [''E'', ''F''], groupOn ''2025-06-10'' [''C'']]"
    by (simp add: merge_eval scenario_eval)
  have o: "offsets (Suc (Suc (Suc 0))) (remapHeights 2 Map.empty) = [0, 292, 584, 844]"
    by (simp add: remapHeights_def offsets_eval)
  have e: "estimateAddedHeight 2 = 584"
    by (simp add: estimateAddedHeight_def ESTIMATED_ITEM_HEIGHT_def ITEM_GAP_def)
  have l: "length page2023 = 2" "page2023 \<noteq> []"
    by (simp_all add: page2023_def)
  show ?thesis
    by (simp add: raceTrace_def state_eval pagination_eval loadAdjacentYear_resolved_def
        applyPendingShift_def renderedTotalHeight_def m o e l)
qed

section \<open>The pending snap\<close>

lemma pendingSnapEffect_None [simp]: "pendingSnapEffect r None = (None, None)"
  by (simp add: pendingSnapEffect_def)

lemma snapsDuring_None [simp]: "snapsDuring rs None = []"
  by (induction rs) simp_all

lemma pendingAfter_None [simp]: "pendingAfter rs None = None"
  by (induction rs) simp_all

lemma pendingSnapEffect_outcomes:
  "pendingSnapEffect r (Some p) = (None, None) \<or>
   (pendingSnapEffect r (Some p) = (Some p, None) \<and> epoch r = lastMeasureVersion p \<and>
      0 < remaining p) \<or>
   (\<exists>t. pendingSnapEffect r (Some p) =
           (Some (p\<lparr>lastMeasureVersion := epoch r, remaining := remaining p - 1\<rparr>), Some t) \<and>
        getScrollTarget (itemCount r) (heightCache r) (scrollEl r) (index p) = Some t \<and>
        2 < \<bar>scrollPos r - t\<bar> \<and> 0 < remaining p \<and> epoch r \<noteq> lastMeasureVersion p)"
  by (auto simp: pendingSnapEffect_def split: option.splits)

lemma pendingSnapEffect_cases:
  obtains (discard) "pendingSnapEffect r (Some p) = (None, None)"
  | (wait) "pendingSnapEffect r (Some p) = (Some p, None)" "epoch r = lastMeasureVersion p"
      "0 < remaining p"
  | (snap) t where
      "pendingSnapEffect r (Some p) =
         (Some (p\<lparr>lastMeasureVersion := epoch r, remaining := remaining p - 1\<rparr>), Some t)"
      "getScrollTarget (itemCount r) (heightCache r) (scrollEl r) (index p) = Some t"
      "2 < \<bar>scrollPos r - t\<bar>" "0 < remaining p" "epoch r \<noteq> lastMeasureVersion p"
  using pendingSnapEffect_outcomes [of r p] by blast

lemma pendingSnapEffect_exhausted:
  "remaining p \<le> 0 \<Longrightarrow> pendingSnapEffect r (Some p) = (None, None)"
  by (simp add: pendingSnapEffect_def split: option.splits)

lemma snapsDuring_bounded: "length (snapsDuring rs (Some p)) \<le> nat (remaining p)"
proof (induction rs arbitrary: p)
  case Nil
  then show ?case by simp
next
  case (Cons r rs)
  show ?case
  proof (cases r p rule: pendingSnapEffect_cases)
    case discard
    then show ?thesis by simp
  next
    case wait
    with Cons.IH [of p] show ?thesis by simp
  next
    case (snap t)
    let ?p = "p\<lparr>lastMeasureVersion := epoch r, remaining := remaining p - 1\<rparr>"
    from Cons.IH [of ?p] have "length (snapsDuring rs (Some ?p)) \<le> nat (remaining p - 1)" by simp
    with snap show ?thesis by simp
  qed
qed

lemma pendingAfter_budget:
  "pendingAfter rs (Some p) = None \<or>
   (\<exists>q. pendingAfter rs (Some p) = Some q \<and>
        remaining q = remaining p - int (length (snapsDuring rs (Some p))))"
proof (induction rs arbitrary: p)
  case Nil
  then show ?case by simp
next
  case (Cons r rs)
  show ?case
  proof (cases r p rule: pendingSnapEffect_cases)
    case discard
    then show ?thesis by simp
  next
    case wait
    with Cons.IH [of p] show ?thesis by simp
  next
    case (snap t)
    let ?p = "p\<lparr>lastMeasureVersion := epoch r, remaining := remaining p - 1\<rparr>"
    from Cons.IH [of ?p] snap show ?thesis by auto
  qed
qed

lemma snapsDuring_epochs:
  "sorted (map epoch rs) \<Longrightarrow> \<forall>r\<in>set rs. lastMeasureVersion p \<le> epoch r \<Longrightarrow>
   sorted_wrt (<) (map fst (snapsDuring rs (Some p))) \<and>
   (\<forall>e\<in>set (map fst (snapsDuring rs (Some p))). lastMeasureVersion p < e)"
proof (induction rs arbitrary: p)
  case Nil
  then show ?case by simp
next
  case (Cons r rs)
  from Cons.prems have srt: "sorted (map epoch rs)" and ge: "\<forall>x\<in>set rs. epoch r \<le> epoch x"
    and lo: "lastMeasureVersion p \<le> epoch r" "\<forall>x\<in>set rs. lastMeasureVersion p \<le> epoch x"
    by auto
  show ?case
  proof (cases r p rule: pendingSnapEffect_cases)
    case discard
    then show ?thesis by simp
  next
    case wait
    with Cons.IH [OF srt lo(2)] show ?thesis by simp
  next
    case (snap t)
    let ?p = "p\<lparr>lastMeasureVersion := epoch r, remaining := remaining p - 1\<rparr>"
    have "\<forall>x\<in>set rs. lastMeasureVersion ?p \<le> epoch x" using ge by simp
    from Cons.IH [OF srt this]
    have ih: "sorted_wrt (<) (map fst (snapsDuring rs (Some ?p)))"
      "\<forall>e\<in>set (map fst (snapsDuring rs (Some ?p))). epoch r < e" by simp_all
    from lo(1) snap(5) have "lastMeasureVersion p < epoch r" by simp
    with ih snap(1) show ?thesis by auto
  qed
qed

subsection \<open>C7: the pending snap is bounded\<close>

text \<open>
  C7: for every pending request and every sequence of renders, whatever the offsets do.
  On a render with items and a scroll element the effect discards the request when the
  recomputed target is within \<open>2\<close> pixels of the scroll position, discards it when the
  budget is used up, waits when the epoch is the one it acted on last, and otherwise
  decrements the budget and snaps to the target. The number of snaps never exceeds the
  budget; when epochs do not decrease, the snaps happen at strictly increasing epochs, all
  later than the epoch of registration, so no epoch is acted on twice; and once the budget
  has been spent, the next run of the effect discards the request and forces nothing.
\<close>

theorem pending_snap_bounded:
  "(itemCount r \<noteq> 0 \<and>
      getScrollTarget (itemCount r) (heightCache r) (scrollEl r) (index p) = Some t \<longrightarrow>
      pendingSnapEffect r (Some p) =
        (if \<bar>scrollPos r - t\<bar> \<le> 2 then (None, None)
         else if remaining p \<le> 0 then (None, None)
         else if epoch r = lastMeasureVersion p then (Some p, None)
         else (Some (p\<lparr>lastMeasureVersion := epoch r, remaining := remaining p - 1\<rparr>), Some t))) \<and>
   length (snapsDuring rs (Some p)) \<le> nat (remaining p) \<and>
   (sorted (map epoch rs) \<and> (\<forall>x\<in>set rs. lastMeasureVersion p \<le> epoch x) \<longrightarrow>
      sorted_wrt (<) (map fst (snapsDuring rs (Some p))) \<and>
      (\<forall>e\<in>set (map fst (snapsDuring rs (Some p))). lastMeasureVersion p < e)) \<and>
   (0 \<le> remaining p \<and> length (snapsDuring rs (Some p)) = nat (remaining p) \<longrightarrow>
      pendingSnapEffect r' (pendingAfter rs (Some p)) = (None, None))"
proof (intro conjI impI)
  assume "itemCount r \<noteq> 0 \<and>
      getScrollTarget (itemCount r) (heightCache r) (scrollEl r) (index p) = Some t"
  then show "pendingSnapEffect r (Some p) =
        (if \<bar>scrollPos r - t\<bar> \<le> 2 then (None, None)
         else if remaining p \<le> 0 then (None, None)
         else if epoch r = lastMeasureVersion p then (Some p, None)
         else (Some (p\<lparr>lastMeasureVersion := epoch r, remaining := remaining p - 1\<rparr>), Some t))"
    by (simp add: pendingSnapEffect_def)
next
  show "length (snapsDuring rs (Some p)) \<le> nat (remaining p)" by (rule snapsDuring_bounded)
next
  assume a: "sorted (map epoch rs) \<and> (\<forall>x\<in>set rs. lastMeasureVersion p \<le> epoch x)"
  then show "sorted_wrt (<) (map fst (snapsDuring rs (Some p)))"
    using snapsDuring_epochs [of rs p] by blast
  from a show "\<forall>e\<in>set (map fst (snapsDuring rs (Some p))). lastMeasureVersion p < e"
    using snapsDuring_epochs [of rs p] by blast
next
  assume a: "0 \<le> remaining p \<and> length (snapsDuring rs (Some p)) = nat (remaining p)"
  from pendingAfter_budget [of rs p]
  show "pendingSnapEffect r' (pendingAfter rs (Some p)) = (None, None)"
  proof
    assume "pendingAfter rs (Some p) = None"
    then show ?thesis by simp
  next
    assume "\<exists>q. pendingAfter rs (Some p) = Some q \<and>
        remaining q = remaining p - int (length (snapsDuring rs (Some p)))"
    then obtain q where q: "pendingAfter rs (Some p) = Some q"
      "remaining q = remaining p - int (length (snapsDuring rs (Some p)))" by blast
    with a have "remaining q \<le> 0" by simp
    then show ?thesis unfolding q(1) by (rule pendingSnapEffect_exhausted)
  qed
qed

lemmas snap_eval = pendingSnapEffect_def getScrollTarget_def totalHeight_def offsetAt_def
  registerSnap_def SCROLL_SNAP_ATTEMPTS_def renderAt_def unstableRenders_def Let_def offsets_eval

theorem pending_snap_bounded_witness:
  "remaining (registerSnap 1 4) = 3 \<and>
   pendingSnapEffect (renderAt 310 5 0) (Some (registerSnap 1 4)) =
     (Some ((registerSnap 1 4)\<lparr>lastMeasureVersion := 5, remaining := 2\<rparr>), Some 372) \<and>
   snapsDuring unstableRenders (Some (registerSnap 1 4)) = [(5, 372), (6, 382), (7, 392)] \<and>
   length (snapsDuring unstableRenders (Some (registerSnap 1 4))) \<le> nat 3 \<and>
   sorted (map epoch unstableRenders) \<and>
   sorted_wrt (<) (map fst (snapsDuring unstableRenders (Some (registerSnap 1 4)))) \<and>
   pendingSnapEffect (renderAt 345 8 392) (pendingAfter unstableRenders (Some (registerSnap 1 4))) =
     (None, None)"
proof -
  let ?p = "registerSnap 1 4"
  let ?r = "renderAt 310 5 0"
  have k: "remaining ?p = 3" "lastMeasureVersion ?p = 4" "index ?p = 1"
    by (simp_all add: registerSnap_def SCROLL_SNAP_ATTEMPTS_def)
  have c: "itemCount ?r \<noteq> 0 \<and>
      getScrollTarget (itemCount ?r) (heightCache ?r) (scrollEl ?r) (index ?p) = Some 372"
    by (simp add: snap_eval)
  have v: "snapsDuring unstableRenders (Some ?p) = [(5, 372), (6, 382), (7, 392)]"
    by (simp add: snap_eval)
  have s: "sorted (map epoch unstableRenders) \<and> (\<forall>x\<in>set unstableRenders. lastMeasureVersion ?p \<le> epoch x)"
    by (simp add: unstableRenders_def renderAt_def registerSnap_def)
  have "length (snapsDuring unstableRenders (Some ?p)) = 3"
    by (simp only: v) simp
  then have f: "0 \<le> remaining ?p \<and> length (snapsDuring unstableRenders (Some ?p)) = nat (remaining ?p)"
    by (simp only: k) simp
  note r = pending_snap_bounded [of ?r ?p 372 unstableRenders "renderAt 345 8 392"]
  from r c have "pendingSnapEffect ?r (Some ?p) =
        (if \<bar>scrollPos ?r - 372\<bar> \<le> 2 then (None, None)
         else if remaining ?p \<le> 0 then (None, None)
         else if epoch ?r = lastMeasureVersion ?p then (Some ?p, None)
         else (Some (?p\<lparr>lastMeasureVersion := epoch ?r, remaining := remaining ?p - 1\<rparr>), Some 372))"
    by blast
  then have a: "pendingSnapEffect ?r (Some ?p) =
     (Some (?p\<lparr>lastMeasureVersion := 5, remaining := 2\<rparr>), Some 372)"
    by (simp add: renderAt_def registerSnap_def SCROLL_SNAP_ATTEMPTS_def)
  from r have b: "length (snapsDuring unstableRenders (Some ?p)) \<le> nat 3"
    by (simp add: registerSnap_def SCROLL_SNAP_ATTEMPTS_def)
  from r s have d: "sorted_wrt (<) (map fst (snapsDuring unstableRenders (Some ?p)))"
    by blast
  from r f have e: "pendingSnapEffect (renderAt 345 8 392) (pendingAfter unstableRenders (Some ?p)) =
     (None, None)"
    by blast
  from k a v b s d e show ?thesis by blast
qed

end
